theory Spec2Isabelle
  imports Main "HOL-Library.Word"
begin

text \<open>
  A shallow embedding of the generator's payload encoder, the folio codec shared by the
  generator and the folio page, the validation effect of the standard code and the batch
  export (\<open>QrGenerator\<close>, \<open>FolioPage\<close>), together with the platform built-ins they call
  (\<open>encodeURIComponent\<close>, \<open>unescape\<close>, \<open>btoa\<close>, \<open>atob\<close>, \<open>escape\<close>,
  \<open>decodeURIComponent\<close>, \<open>JSON.stringify\<close>, \<open>JSON.parse\<close>), modelled after ECMAScript and
  the HTML standard. Of React the model has the order of commit, cleanup and effect,
  and what makes the rendering of the folio card throw. The rendering of the code, pixel
  decoding, image generation and compression are outside: what they return is an
  argument of the model.
\<close>

section \<open>JavaScript strings\<close>

text \<open>
  A JavaScript string is a sequence of 16-bit UTF-16 code units. String literals of the
  source are ASCII and are written through \<open>js\<close>.
\<close>

type_synonym code_unit = "16 word"
type_synonym js_string = "code_unit list"

definition js :: "string \<Rightarrow> js_string" where
  "js s = map of_char s"

text \<open>The code unit with a given numeric value (taken modulo \<open>2^16\<close>).\<close>

definition unit_of :: "nat \<Rightarrow> code_unit" where
  "unit_of n = of_nat n"

text \<open>The values a \<open>throw\<close> of the modelled code can carry.\<close>

datatype js_error =
    URIError
  | InvalidCharacterError
  | SyntaxError
  | TypeError
  | Error js_string

text \<open>\<open>prepend s r\<close>: a successful rest \<open>r\<close> gets \<open>s\<close> in front, an error stays.\<close>

definition prepend :: "js_string \<Rightarrow> js_error + js_string \<Rightarrow> js_error + js_string" where
  "prepend s r = (case r of Inl e \<Rightarrow> Inl e | Inr t \<Rightarrow> Inr (s @ t))"

text \<open>\<open>x || ''\<close> on a field that is a string or \<open>undefined\<close>.\<close>

definition or_empty :: "js_string option \<Rightarrow> js_string" where
  "or_empty x = (case x of None \<Rightarrow> [] | Some s \<Rightarrow> s)"

text \<open>\<open>x || d\<close>: the default is taken for \<open>undefined\<close> and for the empty string.\<close>

definition or_default :: "js_string option \<Rightarrow> js_string \<Rightarrow> js_string" where
  "or_default x d = (case x of None \<Rightarrow> d | Some s \<Rightarrow> if s = [] then d else s)"

text \<open>Truthiness of a value that is a string or \<open>undefined\<close>.\<close>

definition truthy :: "js_string option \<Rightarrow> bool" where
  "truthy x = (case x of None \<Rightarrow> False | Some s \<Rightarrow> s \<noteq> [])"

subsection \<open>Character classes and hexadecimal digits\<close>

definition is_digit :: "code_unit \<Rightarrow> bool" where
  "is_digit c = (0x30 \<le> c \<and> c \<le> 0x39)"

definition is_alpha :: "code_unit \<Rightarrow> bool" where
  "is_alpha c = ((0x41 \<le> c \<and> c \<le> 0x5A) \<or> (0x61 \<le> c \<and> c \<le> 0x7A))"

definition is_lead :: "code_unit \<Rightarrow> bool" where
  "is_lead c = (0xD800 \<le> c \<and> c \<le> 0xDBFF)"

definition is_trail :: "code_unit \<Rightarrow> bool" where
  "is_trail c = (0xDC00 \<le> c \<and> c \<le> 0xDFFF)"

definition hex_upper :: "nat \<Rightarrow> code_unit" where
  "hex_upper n = (if n < 10 then unit_of (0x30 + n) else unit_of (0x41 + (n - 10)))"

definition hex_lower :: "nat \<Rightarrow> code_unit" where
  "hex_lower n = (if n < 10 then unit_of (0x30 + n) else unit_of (0x61 + (n - 10)))"

definition hex_value :: "code_unit \<Rightarrow> nat option" where
  "hex_value c =
     (if 0x30 \<le> c \<and> c \<le> 0x39 then Some (unat c - 0x30)
      else if 0x41 \<le> c \<and> c \<le> 0x46 then Some (unat c - 0x41 + 10)
      else if 0x61 \<le> c \<and> c \<le> 0x66 then Some (unat c - 0x61 + 10)
      else None)"

text \<open>The value of a run of hexadecimal digits, \<open>None\<close> when one of them is no digit.\<close>

fun hex_number :: "nat \<Rightarrow> js_string \<Rightarrow> nat option" where
  "hex_number acc [] = Some acc"
| "hex_number acc (c # cs) =
     (case hex_value c of None \<Rightarrow> None | Some d \<Rightarrow> hex_number (16 * acc + d) cs)"

text \<open>Exactly \<open>n\<close> hexadecimal digits.\<close>

definition hex_digits :: "nat \<Rightarrow> js_string \<Rightarrow> nat option" where
  "hex_digits n s = (if length s = n then hex_number 0 s else None)"

definition pct :: code_unit where
  "pct = 0x25"

text \<open>An octet as \<open>%XX\<close>, upper-case digits.\<close>

definition percent_octet :: "nat \<Rightarrow> js_string" where
  "percent_octet b = [pct, hex_upper (b div 16), hex_upper (b mod 16)]"

subsection \<open>UTF-8 and UTF-16\<close>

definition utf8_octets :: "nat \<Rightarrow> nat list" where
  "utf8_octets cp =
     (if cp < 0x80 then [cp]
      else if cp < 0x800 then [0xC0 + cp div 0x40, 0x80 + cp mod 0x40]
      else if cp < 0x10000 then
        [0xE0 + cp div 0x1000, 0x80 + (cp div 0x40) mod 0x40, 0x80 + cp mod 0x40]
      else
        [0xF0 + cp div 0x40000, 0x80 + (cp div 0x1000) mod 0x40,
         0x80 + (cp div 0x40) mod 0x40, 0x80 + cp mod 0x40])"

definition pair_code_point :: "code_unit \<Rightarrow> code_unit \<Rightarrow> nat" where
  "pair_code_point hi lo = (unat hi - 0xD800) * 0x400 + (unat lo - 0xDC00) + 0x10000"

definition utf16_encode :: "nat \<Rightarrow> js_string" where
  "utf16_encode cp =
     (if cp < 0x10000 then [unit_of cp]
      else [unit_of (0xD800 + (cp - 0x10000) div 0x400),
            unit_of (0xDC00 + (cp - 0x10000) mod 0x400)])"

definition is_continuation :: "nat \<Rightarrow> bool" where
  "is_continuation b = (0x80 \<le> b \<and> b < 0xC0)"

text \<open>
  The code point of a well-formed UTF-8 sequence of two to four octets: continuation
  octets in 80..BF, no overlong form, no surrogate, nothing above 10FFFF.
\<close>

fun utf8_code_point :: "nat list \<Rightarrow> nat option" where
  "utf8_code_point [b0, b1] =
     (let v = (b0 - 0xC0) * 0x40 + (b1 - 0x80)
      in if is_continuation b1 \<and> 0x80 \<le> v then Some v else None)"
| "utf8_code_point [b0, b1, b2] =
     (let v = (b0 - 0xE0) * 0x1000 + (b1 - 0x80) * 0x40 + (b2 - 0x80)
      in if is_continuation b1 \<and> is_continuation b2 \<and> 0x800 \<le> v
            \<and> \<not> (0xD800 \<le> v \<and> v < 0xE000) then Some v else None)"
| "utf8_code_point [b0, b1, b2, b3] =
     (let v = (b0 - 0xF0) * 0x40000 + (b1 - 0x80) * 0x1000 + (b2 - 0x80) * 0x40 + (b3 - 0x80)
      in if is_continuation b1 \<and> is_continuation b2 \<and> is_continuation b3
            \<and> 0x10000 \<le> v \<and> v < 0x110000 then Some v else None)"
| "utf8_code_point _ = None"

text \<open>The number of leading 1 bits of an octet (5 stands for five or more).\<close>

definition leading_ones :: "nat \<Rightarrow> nat" where
  "leading_ones b =
     (if b < 0x80 then 0 else if b < 0xC0 then 1 else if b < 0xE0 then 2
      else if b < 0xF0 then 3 else if b < 0xF8 then 4 else 5)"

section \<open>The URI and escape built-ins\<close>

text \<open>
  \<open>encodeURIComponent\<close> (ECMAScript \<open>Encode\<close>): letters, digits and
  \<open>- _ . ! ~ * ' ( )\<close> stay; every other code point becomes the \<open>%XX\<close> of its UTF-8
  octets; an unpaired surrogate throws a URIError.
\<close>

definition uri_unescaped :: "code_unit \<Rightarrow> bool" where
  "uri_unescaped c = (is_alpha c \<or> is_digit c \<or> c \<in> set (js ''-_.!~*'' @ [0x27] @ js ''()''))"

fun encodeURIComponent :: "js_string \<Rightarrow> js_error + js_string" where
  "encodeURIComponent [] = Inr []"
| "encodeURIComponent (c # cs) =
     (if uri_unescaped c then prepend [c] (encodeURIComponent cs)
      else if is_trail c then Inl URIError
      else if is_lead c then
        (case cs of
           [] \<Rightarrow> Inl URIError
         | d # ds \<Rightarrow>
             if is_trail d
             then prepend (concat (map percent_octet (utf8_octets (pair_code_point c d))))
                    (encodeURIComponent ds)
             else Inl URIError)
      else prepend (concat (map percent_octet (utf8_octets (unat c)))) (encodeURIComponent cs))"

text \<open>
  \<open>unescape\<close> (ECMAScript B.2.1.2): \<open>%uXXXX\<close> and \<open>%XX\<close> become the code unit of that
  value; a \<open>%\<close> that starts neither stays.
\<close>

fun unescape :: "js_string \<Rightarrow> js_string" where
  "unescape [] = []"
| "unescape (c # cs) =
     (if c = pct then
        (if 5 \<le> length cs \<and> hd cs = 0x75 then
           (case hex_digits 4 (take 4 (tl cs)) of
              Some n \<Rightarrow> unit_of n # unescape (drop 5 cs)
            | None \<Rightarrow> c # unescape cs)
         else if 2 \<le> length cs then
           (case hex_digits 2 (take 2 cs) of
              Some n \<Rightarrow> unit_of n # unescape (drop 2 cs)
            | None \<Rightarrow> c # unescape cs)
         else c # unescape cs)
      else c # unescape cs)"

text \<open>
  \<open>escape\<close> (ECMAScript B.2.1.1): letters, digits and \<open>@ * _ + - . /\<close> stay; a code
  unit below 256 becomes \<open>%XX\<close>, any other \<open>%uXXXX\<close>.
\<close>

definition escape_unescaped :: "code_unit \<Rightarrow> bool" where
  "escape_unescaped c = (is_alpha c \<or> is_digit c \<or> c \<in> set (js ''@*_+-./''))"

definition escape_unit :: "code_unit \<Rightarrow> js_string" where
  "escape_unit c =
     (if escape_unescaped c then [c]
      else if unat c < 256 then percent_octet (unat c)
      else [pct, 0x75, hex_upper (unat c div 0x1000), hex_upper ((unat c div 0x100) mod 16),
            hex_upper ((unat c div 16) mod 16), hex_upper (unat c mod 16)])"

definition escape :: "js_string \<Rightarrow> js_string" where
  "escape s = concat (map escape_unit s)"

text \<open>
  \<open>decodeURIComponent\<close> (ECMAScript \<open>Decode\<close> with no reserved set): every \<open>%XX\<close>
  is an octet, octets are read as UTF-8, and anything malformed throws a URIError.
\<close>

fun continuation_octets :: "nat \<Rightarrow> js_string \<Rightarrow> nat list option" where
  "continuation_octets 0 s = Some []"
| "continuation_octets (Suc j) s =
     (if 3 \<le> length s \<and> hd s = pct then
        (case hex_digits 2 (take 2 (tl s)) of
           None \<Rightarrow> None
         | Some b \<Rightarrow> map_option ((#) b) (continuation_octets j (drop 3 s)))
      else None)"

fun decodeURIComponent :: "js_string \<Rightarrow> js_error + js_string" where
  "decodeURIComponent [] = Inr []"
| "decodeURIComponent (c # cs) =
     (if c \<noteq> pct then prepend [c] (decodeURIComponent cs)
      else
        (case hex_digits 2 (take 2 cs) of
           None \<Rightarrow> Inl URIError
         | Some b \<Rightarrow>
             if leading_ones b = 0 then prepend [unit_of b] (decodeURIComponent (drop 2 cs))
             else if leading_ones b = 1 \<or> 4 < leading_ones b then Inl URIError
             else
               (case continuation_octets (leading_ones b - 1) (drop 2 cs) of
                  None \<Rightarrow> Inl URIError
                | Some octets \<Rightarrow>
                    (case utf8_code_point (b # octets) of
                       None \<Rightarrow> Inl URIError
                     | Some v \<Rightarrow>
                         prepend (utf16_encode v)
                           (decodeURIComponent (drop (2 + 3 * (leading_ones b - 1)) cs))))))"

section \<open>Base64: \<open>btoa\<close> and \<open>atob\<close>\<close>

text \<open>
  The alphabet \<open>A-Z a-z 0-9 + /\<close>: the character of a six-bit value, and back.
\<close>

definition base64_char :: "nat \<Rightarrow> code_unit" where
  "base64_char n =
     (if n < 26 then unit_of (0x41 + n)
      else if n < 52 then unit_of (0x61 + (n - 26))
      else if n < 62 then unit_of (0x30 + (n - 52))
      else if n = 62 then 0x2B
      else 0x2F)"

definition base64_index :: "code_unit \<Rightarrow> nat option" where
  "base64_index c =
     (if 0x41 \<le> c \<and> c \<le> 0x5A then Some (unat c - 0x41)
      else if 0x61 \<le> c \<and> c \<le> 0x7A then Some (unat c - 0x61 + 26)
      else if 0x30 \<le> c \<and> c \<le> 0x39 then Some (unat c - 0x30 + 52)
      else if c = 0x2B then Some 62
      else if c = 0x2F then Some 63
      else None)"

definition equals_sign :: code_unit where
  "equals_sign = 0x3D"

text \<open>Three octets become four characters; a last group of one or two is padded with \<open>=\<close>.\<close>

fun base64_encode :: "nat list \<Rightarrow> js_string" where
  "base64_encode [] = []"
| "base64_encode [a] =
     [base64_char (a div 4), base64_char ((a mod 4) * 16), equals_sign, equals_sign]"
| "base64_encode [a, b] =
     [base64_char (a div 4), base64_char ((a mod 4) * 16 + b div 16),
      base64_char ((b mod 16) * 4), equals_sign]"
| "base64_encode (a # b # c # rest) =
     [base64_char (a div 4), base64_char ((a mod 4) * 16 + b div 16),
      base64_char ((b mod 16) * 4 + c div 64), base64_char (c mod 64)] @ base64_encode rest"

text \<open>
  \<open>btoa\<close>: a code unit above \<open>0xFF\<close> throws an InvalidCharacterError; otherwise the
  code units are the octets to encode.
\<close>

definition btoa :: "js_string \<Rightarrow> js_error + js_string" where
  "btoa s =
     (if list_all (\<lambda>c. c \<le> 0xFF) s then Inr (base64_encode (map unat s))
      else Inl InvalidCharacterError)"

text \<open>
  \<open>atob\<close> is the forgiving-base64 decode of the HTML standard: ASCII whitespace is
  removed; when the length is a multiple of four, one or two \<open>=\<close> at the end are removed;
  a length of 1 modulo 4 or a character outside the alphabet fails; the bits left over
  after the last whole octet are discarded.
\<close>

definition ascii_whitespace :: "code_unit \<Rightarrow> bool" where
  "ascii_whitespace c = (c = 0x09 \<or> c = 0x0A \<or> c = 0x0C \<or> c = 0x0D \<or> c = 0x20)"

definition strip_padding :: "js_string \<Rightarrow> js_string" where
  "strip_padding s =
     (if length s mod 4 = 0 \<and> s \<noteq> [] \<and> last s = equals_sign then
        (if butlast s \<noteq> [] \<and> last (butlast s) = equals_sign then butlast (butlast s)
         else butlast s)
      else s)"

fun sextets :: "js_string \<Rightarrow> nat list option" where
  "sextets [] = Some []"
| "sextets (c # cs) =
     (case base64_index c of
        None \<Rightarrow> None
      | Some n \<Rightarrow> map_option ((#) n) (sextets cs))"

fun base64_decode :: "nat list \<Rightarrow> nat list" where
  "base64_decode (a # b # c # d # rest) =
     [a * 4 + b div 16, (b mod 16) * 16 + c div 4, (c mod 4) * 64 + d] @ base64_decode rest"
| "base64_decode [a, b, c] = [a * 4 + b div 16, (b mod 16) * 16 + c div 4]"
| "base64_decode [a, b] = [a * 4 + b div 16]"
| "base64_decode _ = []"

definition atob :: "js_string \<Rightarrow> js_error + js_string" where
  "atob s =
     (let t = strip_padding (filter (\<lambda>c. \<not> ascii_whitespace c) s)
      in if length t mod 4 = 1 then Inl InvalidCharacterError
         else (case sextets t of
                 None \<Rightarrow> Inl InvalidCharacterError
               | Some ns \<Rightarrow> Inr (map unit_of (base64_decode ns))))"

section \<open>JSON\<close>

text \<open>
  JavaScript values as far as \<open>JSON.stringify\<close> and \<open>JSON.parse\<close> see them. An object
  is the list of its own properties in creation order. A number is kept as the text of
  its JSON literal: no number occurs in a profile, and of the value of a number the
  model needs only whether it is zero and whether it is positive.
\<close>

datatype js_value =
    JUndefined
  | JNull
  | JBool bool
  | JNum js_string
  | JStr js_string
  | JArr "js_value list"
  | JObj "(js_string \<times> js_value) list"

definition dquote :: code_unit where
  "dquote = 0x22"

definition backslash :: code_unit where
  "backslash = 0x5C"

subsection \<open>\<open>JSON.stringify\<close>\<close>

text \<open>\<open>\\uXXXX\<close> with lower-case digits, as \<open>UnicodeEscape\<close> writes it.\<close>

definition unicode_escape :: "code_unit \<Rightarrow> js_string" where
  "unicode_escape c =
     [backslash, 0x75, hex_lower (unat c div 0x1000), hex_lower ((unat c div 0x100) mod 16),
      hex_lower ((unat c div 16) mod 16), hex_lower (unat c mod 16)]"

text \<open>One code unit that is no surrogate, inside a JSON string literal.\<close>

definition json_escape :: "code_unit \<Rightarrow> js_string" where
  "json_escape c =
     (if c = 0x08 then [backslash, 0x62]
      else if c = 0x09 then [backslash, 0x74]
      else if c = 0x0A then [backslash, 0x6E]
      else if c = 0x0C then [backslash, 0x66]
      else if c = 0x0D then [backslash, 0x72]
      else if c = dquote then [backslash, dquote]
      else if c = backslash then [backslash, backslash]
      else if c < 0x20 then unicode_escape c
      else [c])"

text \<open>
  \<open>QuoteJSONString\<close> walks the string by code points: a surrogate pair is copied, an
  unpaired surrogate is written as a \<open>\\uXXXX\<close> escape (well-formed \<open>JSON.stringify\<close>).
\<close>

fun quote_chars :: "js_string \<Rightarrow> js_string" where
  "quote_chars [] = []"
| "quote_chars (c # cs) =
     (if is_lead c then
        (case cs of
           [] \<Rightarrow> unicode_escape c
         | d # ds \<Rightarrow>
             if is_trail d then c # d # quote_chars ds
             else unicode_escape c @ quote_chars cs)
      else if is_trail c then unicode_escape c @ quote_chars cs
      else json_escape c @ quote_chars cs)"

definition quote_json :: "js_string \<Rightarrow> js_string" where
  "quote_json s = dquote # quote_chars s @ [dquote]"

fun join :: "js_string \<Rightarrow> js_string list \<Rightarrow> js_string" where
  "join sep [] = []"
| "join sep [x] = x"
| "join sep (x # y # ys) = x @ sep @ join sep (y # ys)"

text \<open>
  \<open>SerializeJSONProperty\<close> without indentation: \<open>None\<close> is the result \<open>undefined\<close>. A
  property whose value serializes to \<open>undefined\<close> is left out of its object; in an array
  it is written \<open>null\<close>.
\<close>

fun serialize :: "js_value \<Rightarrow> js_string option" where
  "serialize JUndefined = None"
| "serialize JNull = Some (js ''null'')"
| "serialize (JBool b) = Some (if b then js ''true'' else js ''false'')"
| "serialize (JNum n) = Some n"
| "serialize (JStr s) = Some (quote_json s)"
| "serialize (JArr vs) =
     Some (js ''['' @
           join (js '','')
             (map (\<lambda>v. case serialize v of None \<Rightarrow> js ''null'' | Some t \<Rightarrow> t) vs) @
           js '']'')"
| "serialize (JObj ms) =
     Some (js ''{'' @
           join (js '','')
             (concat (map (\<lambda>(k, v). case serialize v of
                                         None \<Rightarrow> []
                                       | Some t \<Rightarrow> [quote_json k @ js '':'' @ t]) ms)) @
           js ''}'')"

definition JSON_stringify :: "js_value \<Rightarrow> js_string option" where
  "JSON_stringify v = serialize v"

subsection \<open>\<open>JSON.parse\<close>\<close>

definition json_whitespace :: "code_unit \<Rightarrow> bool" where
  "json_whitespace c = (c = 0x20 \<or> c = 0x09 \<or> c = 0x0A \<or> c = 0x0D)"

definition skip_ws :: "js_string \<Rightarrow> js_string" where
  "skip_ws s = dropWhile json_whitespace s"

text \<open>The character after a backslash, for the two-character escapes.\<close>

definition simple_escape :: "code_unit \<Rightarrow> code_unit option" where
  "simple_escape e =
     (if e = dquote then Some dquote
      else if e = backslash then Some backslash
      else if e = 0x2F then Some 0x2F
      else if e = 0x62 then Some 0x08
      else if e = 0x66 then Some 0x0C
      else if e = 0x6E then Some 0x0A
      else if e = 0x72 then Some 0x0D
      else if e = 0x74 then Some 0x09
      else None)"

text \<open>
  The rest of a string literal after its opening quote: the string it denotes and the
  input after the closing quote.
\<close>

fun parse_string_chars :: "js_string \<Rightarrow> (js_string \<times> js_string) option" where
  "parse_string_chars [] = None"
| "parse_string_chars (c # cs) =
     (if c = dquote then Some ([], cs)
      else if c = backslash then
        (case cs of
           [] \<Rightarrow> None
         | e # rest \<Rightarrow>
             if e = 0x75 then
               (case hex_digits 4 (take 4 rest) of
                  None \<Rightarrow> None
                | Some n \<Rightarrow> map_option (apfst ((#) (unit_of n))) (parse_string_chars (drop 4 rest)))
             else
               (case simple_escape e of
                  None \<Rightarrow> None
                | Some x \<Rightarrow> map_option (apfst ((#) x)) (parse_string_chars rest)))
      else if c < 0x20 then None
      else map_option (apfst ((#) c)) (parse_string_chars cs))"

text \<open>
  A number literal: \<open>-\<close>? (\<open>0\<close> | digit 1-9, digits) (\<open>.\<close> digits+)? (\<open>e\<close>|\<open>E\<close>, sign?, digits+)?
  Each part returns the text it read and the rest.
\<close>

definition number_sign :: "js_string \<Rightarrow> js_string \<times> js_string" where
  "number_sign s = (case s of c # cs \<Rightarrow> if c = 0x2D then ([c], cs) else ([], s) | [] \<Rightarrow> ([], s))"

definition number_int :: "js_string \<Rightarrow> (js_string \<times> js_string) option" where
  "number_int s =
     (case s of
        [] \<Rightarrow> None
      | c # cs \<Rightarrow>
          if c = 0x30 then Some ([c], cs)
          else if is_digit c then Some (c # takeWhile is_digit cs, dropWhile is_digit cs)
          else None)"

definition number_digits :: "js_string \<Rightarrow> (js_string \<times> js_string) option" where
  "number_digits s =
     (if takeWhile is_digit s = [] then None
      else Some (takeWhile is_digit s, dropWhile is_digit s))"

definition number_frac :: "js_string \<Rightarrow> (js_string \<times> js_string) option" where
  "number_frac s =
     (case s of
        [] \<Rightarrow> Some ([], s)
      | c # cs \<Rightarrow>
          if c = 0x2E then map_option (apfst ((#) c)) (number_digits cs)
          else Some ([], s))"

definition number_exp :: "js_string \<Rightarrow> (js_string \<times> js_string) option" where
  "number_exp s =
     (case s of
        [] \<Rightarrow> Some ([], s)
      | c # cs \<Rightarrow>
          if c = 0x65 \<or> c = 0x45 then
            (case cs of
               [] \<Rightarrow> None
             | d # ds \<Rightarrow>
                 if d = 0x2B \<or> d = 0x2D
                 then map_option (apfst (\<lambda>t. c # d # t)) (number_digits ds)
                 else map_option (apfst ((#) c)) (number_digits cs))
          else Some ([], s))"

definition parse_number :: "js_string \<Rightarrow> (js_string \<times> js_string) option" where
  "parse_number s =
     (case number_sign s of (sg, s1) \<Rightarrow>
        (case number_int s1 of
           None \<Rightarrow> None
         | Some (i, s2) \<Rightarrow>
             (case number_frac s2 of
                None \<Rightarrow> None
              | Some (f, s3) \<Rightarrow>
                  (case number_exp s3 of
                     None \<Rightarrow> None
                   | Some (e, s4) \<Rightarrow> Some (sg @ i @ f @ e, s4)))))"

text \<open>A keyword at the front of the input.\<close>

definition keyword :: "js_string \<Rightarrow> js_value \<Rightarrow> js_string \<Rightarrow> (js_value \<times> js_string) option" where
  "keyword w v s = (if take (length w) s = w then Some (v, drop (length w) s) else None)"

text \<open>
  \<open>CreateDataProperty\<close> on the object under construction: a key already there keeps its
  place and takes the new value, a new key goes to the end.
\<close>

fun set_property :: "js_string \<Rightarrow> js_value \<Rightarrow> (js_string \<times> js_value) list
    \<Rightarrow> (js_string \<times> js_value) list" where
  "set_property k v [] = [(k, v)]"
| "set_property k v (p # ps) = (if fst p = k then (k, v) # ps else p # set_property k v ps)"

definition make_object :: "(js_string \<times> js_value) list \<Rightarrow> js_value" where
  "make_object ms = JObj (foldl (\<lambda>obj (k, v). set_property k v obj) [] ms)"

text \<open>
  The recursive descent. The first argument bounds the number of nested calls; a value
  never needs more of them than it has characters (lemma \<open>parse_fuel\<close> below), so
  \<open>JSON_parse\<close> starts with the length of the text.
\<close>

fun parse_value :: "nat \<Rightarrow> js_string \<Rightarrow> (js_value \<times> js_string) option"
  and parse_elements :: "nat \<Rightarrow> js_string \<Rightarrow> (js_value list \<times> js_string) option"
  and parse_members :: "nat \<Rightarrow> js_string \<Rightarrow> ((js_string \<times> js_value) list \<times> js_string) option"
where
  "parse_value 0 s = None"
| "parse_value (Suc n) s =
     (case s of
        [] \<Rightarrow> None
      | c # cs \<Rightarrow>
          if c = dquote then map_option (apfst JStr) (parse_string_chars cs)
          else if c = 0x5B then
            (case skip_ws cs of
               [] \<Rightarrow> None
             | d # ds \<Rightarrow>
                 if d = 0x5D then Some (JArr [], ds)
                 else map_option (apfst JArr) (parse_elements n (d # ds)))
          else if c = 0x7B then
            (case skip_ws cs of
               [] \<Rightarrow> None
             | d # ds \<Rightarrow>
                 if d = 0x7D then Some (JObj [], ds)
                 else map_option (apfst make_object) (parse_members n (d # ds)))
          else if c = 0x74 then keyword (js ''true'') (JBool True) s
          else if c = 0x66 then keyword (js ''false'') (JBool False) s
          else if c = 0x6E then keyword (js ''null'') JNull s
          else map_option (apfst JNum) (parse_number s))"
| "parse_elements 0 s = None"
| "parse_elements (Suc n) s =
     (case parse_value n s of
        None \<Rightarrow> None
      | Some (v, r) \<Rightarrow>
          (case skip_ws r of
             [] \<Rightarrow> None
           | c # cs \<Rightarrow>
               if c = 0x2C then map_option (apfst ((#) v)) (parse_elements n (skip_ws cs))
               else if c = 0x5D then Some ([v], cs)
               else None))"
| "parse_members 0 s = None"
| "parse_members (Suc n) s =
     (case s of
        [] \<Rightarrow> None
      | c # cs \<Rightarrow>
          if c = dquote then
            (case parse_string_chars cs of
               None \<Rightarrow> None
             | Some (k, r) \<Rightarrow>
                 (case skip_ws r of
                    [] \<Rightarrow> None
                  | d # ds \<Rightarrow>
                      if d = 0x3A then
                        (case parse_value n (skip_ws ds) of
                           None \<Rightarrow> None
                         | Some (v, r') \<Rightarrow>
                             (case skip_ws r' of
                                [] \<Rightarrow> None
                              | e # es \<Rightarrow>
                                  if e = 0x2C
                                  then map_option (apfst ((#) (k, v))) (parse_members n (skip_ws es))
                                  else if e = 0x7D then Some ([(k, v)], es)
                                  else None))
                      else None))
          else None)"

definition JSON_parse :: "js_string \<Rightarrow> js_error + js_value" where
  "JSON_parse s =
     (case parse_value (Suc (length s)) (skip_ws s) of
        None \<Rightarrow> Inl SyntaxError
      | Some (v, r) \<Rightarrow> if skip_ws r = [] then Inr v else Inl SyntaxError)"

text \<open>
  \<open>Object.keys(v).length\<close>: the own enumerable string keys. \<open>null\<close> and \<open>undefined\<close>
  throw a TypeError; a number or a boolean has none; a string and an array have their
  indices.
\<close>

definition object_keys_length :: "js_value \<Rightarrow> js_error + nat" where
  "object_keys_length v =
     (case v of
        JUndefined \<Rightarrow> Inl TypeError
      | JNull \<Rightarrow> Inl TypeError
      | JBool b \<Rightarrow> Inr 0
      | JNum n \<Rightarrow> Inr 0
      | JStr s \<Rightarrow> Inr (length s)
      | JArr vs \<Rightarrow> Inr (length vs)
      | JObj ms \<Rightarrow> Inr (length (remdups (map fst ms))))"

text \<open>Reading a property \<open>v.k\<close> of a parsed object: \<open>None\<close> is \<open>undefined\<close>.\<close>

definition get_property :: "js_value \<Rightarrow> js_string \<Rightarrow> js_value option" where
  "get_property v k = (case v of JObj ms \<Rightarrow> map_of ms k | _ \<Rightarrow> None)"

subsection \<open>Truthiness and conversion to a number\<close>

text \<open>The value of a run of decimal digits.\<close>

fun digits_value :: "int \<Rightarrow> js_string \<Rightarrow> int" where
  "digits_value acc [] = acc"
| "digits_value acc (c # cs) = digits_value (10 * acc + (uint c - 0x30)) cs"

definition digit_run :: "js_string \<Rightarrow> int option" where
  "digit_run s = (if s \<noteq> [] \<and> list_all is_digit s then Some (digits_value 0 s) else None)"

text \<open>
  The exponent at the end of a decimal literal: nothing, or \<open>e\<close> or \<open>E\<close>, an optional sign
  and digits.
\<close>

definition exponent_part :: "js_string \<Rightarrow> int option" where
  "exponent_part r =
     (case r of
        [] \<Rightarrow> Some 0
      | c # cs \<Rightarrow>
          if c \<noteq> 0x65 \<and> c \<noteq> 0x45 then None
          else
            (case cs of
               [] \<Rightarrow> None
             | d # ds \<Rightarrow>
                 if d = 0x2D then map_option uminus (digit_run ds)
                 else if d = 0x2B then digit_run ds
                 else digit_run cs))"

text \<open>
  An unsigned decimal literal (\<open>StrUnsignedDecimalLiteral\<close> without \<open>Infinity\<close>, of which
  the unsigned JSON numbers are a part): digits, an optional fraction, an optional
  exponent, with a digit before or after the point. The result \<open>(m, k)\<close> stands for
  \<open>m * 10^k\<close>.
\<close>

definition decimal_literal :: "js_string \<Rightarrow> (int \<times> int) option" where
  "decimal_literal s =
     (let ds = takeWhile is_digit s;
          r = dropWhile is_digit s;
          point = (r \<noteq> [] \<and> hd r = 0x2E);
          fs = (if point then takeWhile is_digit (tl r) else []);
          r' = (if point then dropWhile is_digit (tl r) else r)
      in if ds = [] \<and> fs = [] then None
         else
           (case exponent_part r' of
              None \<Rightarrow> None
            | Some e \<Rightarrow> Some (digits_value 0 (ds @ fs), e - int (length fs))))"

text \<open>
  The Number value of \<open>m * 10^k\<close> is zero when \<open>m\<close> is, and when the nearest double is:
  half the least positive double, \<open>2^-1075\<close>, and everything below it round to zero.
\<close>

definition rounds_to_zero :: "int \<Rightarrow> int \<Rightarrow> bool" where
  "rounds_to_zero m k = (m = 0 \<or> (k < 0 \<and> m * 2 ^ 1075 \<le> 10 ^ nat (- k)))"

definition decimal_positive :: "js_string \<Rightarrow> bool" where
  "decimal_positive s =
     (case decimal_literal s of None \<Rightarrow> False | Some (m, k) \<Rightarrow> \<not> rounds_to_zero m k)"

text \<open>A JSON number that is not \<open>0\<close> or \<open>-0\<close>, and one that is greater than \<open>0\<close>.\<close>

definition number_nonzero :: "js_string \<Rightarrow> bool" where
  "number_nonzero n = decimal_positive (if n \<noteq> [] \<and> hd n = 0x2D then tl n else n)"

definition number_positive :: "js_string \<Rightarrow> bool" where
  "number_positive n = decimal_positive n"

text \<open>\<open>ToBoolean\<close>.\<close>

fun to_boolean :: "js_value \<Rightarrow> bool" where
  "to_boolean JUndefined = False"
| "to_boolean JNull = False"
| "to_boolean (JBool b) = b"
| "to_boolean (JNum n) = number_nonzero n"
| "to_boolean (JStr s) = (s \<noteq> [])"
| "to_boolean (JArr vs) = True"
| "to_boolean (JObj ms) = True"

text \<open>White space and line terminators, which \<open>StringToNumber\<close> strips at both ends.\<close>

definition str_whitespace :: "code_unit \<Rightarrow> bool" where
  "str_whitespace c =
     (c \<in> set [0x9, 0xA, 0xB, 0xC, 0xD, 0x20, 0xA0, 0x1680, 0x2028, 0x2029, 0x202F, 0x205F,
               0x3000, 0xFEFF]
      \<or> (0x2000 \<le> c \<and> c \<le> 0x200A))"

definition trim :: "js_string \<Rightarrow> js_string" where
  "trim s = rev (dropWhile str_whitespace (rev (dropWhile str_whitespace s)))"

text \<open>
  A literal \<open>0x\<close>, \<open>0o\<close> or \<open>0b\<close> with digits of that radix: its value is positive when a
  digit is not \<open>0\<close>.
\<close>

definition radix_digit :: "nat \<Rightarrow> code_unit \<Rightarrow> bool" where
  "radix_digit b c = (case hex_value c of None \<Rightarrow> False | Some d \<Rightarrow> d < b)"

definition radix_literal :: "js_string \<Rightarrow> nat option" where
  "radix_literal t =
     (case t of
        z # x # ds \<Rightarrow>
          if z \<noteq> 0x30 then None
          else if x = 0x78 \<or> x = 0x58 then Some 16
          else if x = 0x6F \<or> x = 0x4F then Some 8
          else if x = 0x62 \<or> x = 0x42 then Some 2
          else None
      | _ \<Rightarrow> None)"

text \<open>
  \<open>StringToNumber(s) > 0\<close>: the trimmed text is \<open>Infinity\<close>, a literal of radix 16, 8 or 2
  (no sign), or a decimal literal with an optional sign; every other text is \<open>NaN\<close>, and
  the empty text is \<open>0\<close>.
\<close>

definition string_positive :: "js_string \<Rightarrow> bool" where
  "string_positive s =
     (let t = trim s in
      if t = js ''Infinity'' \<or> t = js ''+Infinity'' then True
      else
        (case radix_literal t of
           Some b \<Rightarrow>
             drop 2 t \<noteq> [] \<and> list_all (radix_digit b) (drop 2 t)
             \<and> list_ex (\<lambda>d. d \<noteq> 0x30) (drop 2 t)
         | None \<Rightarrow> decimal_positive (if t \<noteq> [] \<and> hd t = 0x2B then tl t else t)))"

text \<open>
  \<open>ToString\<close> of a value throws a TypeError when no method yields a primitive: an object
  of \<open>JSON.parse\<close> with an own property \<open>toString\<close> (which is no function), or an array
  that contains such an object (\<open>join\<close> converts every element but \<open>null\<close>). The same
  holds for \<open>ToPrimitive\<close> with any hint.
\<close>

fun to_string_throws :: "js_value \<Rightarrow> bool" where
  "to_string_throws (JObj ms) = (js ''toString'' \<in> set (map fst ms))"
| "to_string_throws (JArr vs) = list_ex to_string_throws vs"
| "to_string_throws v = False"

text \<open>
  \<open>StringToNumber(ToString(v)) > 0\<close> for a value that converts: a number converts to a
  text of the same number; an array converts to the texts of its elements joined by
  commas, which is a number only for one element (no element gives the empty text).
\<close>

fun text_positive :: "js_value \<Rightarrow> bool" where
  "text_positive (JNum n) = number_positive n"
| "text_positive (JStr s) = string_positive s"
| "text_positive (JArr [v]) = text_positive v"
| "text_positive v = False"

text \<open>\<open>v > 0\<close> for a value that converts: \<open>ToNumber(ToPrimitive(v)) > 0\<close>.\<close>

definition greater_than_zero :: "js_value \<Rightarrow> bool" where
  "greater_than_zero v = (case v of JBool b \<Rightarrow> b | _ \<Rightarrow> text_positive v)"

section \<open>The folio codec\<close>

text \<open>
  \<open>utf8ToBase64\<close> of the generator: whatever the three built-ins throw is caught and
  replaced by one \<open>Error\<close> with a fixed message.
\<close>

definition encode_failed_message :: js_string where
  "encode_failed_message =
     js ''Could not encode data for QR code. Please check for unsupported characters.''"

definition utf8ToBase64 :: "js_string \<Rightarrow> js_error + js_string" where
  "utf8ToBase64 str =
     (case encodeURIComponent str of
        Inl e \<Rightarrow> Inl (Error encode_failed_message)
      | Inr t \<Rightarrow>
          (case btoa (unescape t) of
             Inl e \<Rightarrow> Inl (Error encode_failed_message)
           | Inr b \<Rightarrow> Inr b))"

text \<open>
  \<open>base64ToUtf8\<close> of the folio page: whatever \<open>atob\<close> or \<open>decodeURIComponent\<close> throws
  is caught and the text \<open>{}\<close> is returned.
\<close>

definition base64ToUtf8 :: "js_string \<Rightarrow> js_string" where
  "base64ToUtf8 str =
     (case atob str of
        Inl e \<Rightarrow> js ''{}''
      | Inr b \<Rightarrow>
          (case decodeURIComponent (escape b) of
             Inl e \<Rightarrow> js ''{}''
           | Inr t \<Rightarrow> t))"

text \<open>
  The \<open>useMemo\<close> of \<open>FolioPage\<close>: \<open>None\<close> is the result \<open>null\<close>, which the page shows as
  an invalid link. Every throw inside the \<open>try\<close> (of \<open>JSON.parse\<close>, of \<open>Object.keys\<close>, of
  the emptiness check) ends in the \<open>catch\<close>.
\<close>

definition folio_decode :: "js_string \<Rightarrow> js_value option" where
  "folio_decode encodedData =
     (if encodedData = [] then None
      else
        (case JSON_parse (base64ToUtf8 encodedData) of
           Inl e \<Rightarrow> None
         | Inr parsedData \<Rightarrow>
             (case object_keys_length parsedData of
                Inl e \<Rightarrow> None
              | Inr n \<Rightarrow>
                  if n = 0 \<and> 0 < length encodedData then None else Some parsedData)))"

text \<open>
  What the page shows: the invalid-link screen, the card of the profile, or nothing,
  when a throw while the card is built or rendered unmounts the page (there is no error
  boundary).
\<close>

datatype page = InvalidLink | ProfileCard | RenderError

text \<open>Truthiness of a property that may be \<open>undefined\<close>.\<close>

definition property_true :: "js_value option \<Rightarrow> bool" where
  "property_true p = (case p of None \<Rightarrow> False | Some v \<Rightarrow> to_boolean v)"

text \<open>
  React renders a text, a number, a boolean, \<open>null\<close> and an array of such children, and
  throws for a child that is an object.
\<close>

fun valid_child :: "js_value \<Rightarrow> bool" where
  "valid_child (JObj ms) = False"
| "valid_child (JArr vs) = list_all valid_child vs"
| "valid_child v = True"

definition child_throws :: "js_value option \<Rightarrow> bool" where
  "child_throws p = (case p of None \<Rightarrow> False | Some v \<Rightarrow> \<not> valid_child v)"

text \<open>
  React writes an attribute as the text of its value: for an object or an array that
  is \<open>ToString\<close>, which can throw.
\<close>

definition attribute_throws :: "js_value option \<Rightarrow> bool" where
  "attribute_throws p = (case p of None \<Rightarrow> False | Some v \<Rightarrow> to_string_throws v)"

text \<open>
  An element of \<open>links\<close> that passes the filter \<open>link && link.url\<close> becomes an anchor with
  the attribute \<open>href={link.url}\<close> and the child \<open>link.title || link.url\<close>.
\<close>

definition link_throws :: "js_value \<Rightarrow> bool" where
  "link_throws l =
     (let url = get_property l (js ''url''); title = get_property l (js ''title'')
      in property_true url
         \<and> (attribute_throws url \<or> child_throws (if property_true title then title else url)))"

text \<open>
  \<open>links && links.length > 0 && links.filter(...).map(...)\<close>: a text that is not empty
  has a positive length and no \<open>filter\<close>; an array has both; of an object \<open>length\<close> is a
  property like any other, compared with \<open>0\<close> after conversion, and \<open>filter\<close> is no
  function; a number and a boolean have no \<open>length\<close>.
\<close>

definition links_throw :: "js_value option \<Rightarrow> bool" where
  "links_throw p =
     (case p of
        None \<Rightarrow> False
      | Some l \<Rightarrow>
          (case l of
             JStr s \<Rightarrow> s \<noteq> []
           | JArr vs \<Rightarrow> list_ex link_throws vs
           | JObj ms \<Rightarrow>
               (case map_of ms (js ''length'') of
                  None \<Rightarrow> False
                | Some n \<Rightarrow> to_string_throws n \<or> greater_than_zero n)
           | _ \<Rightarrow> False))"

text \<open>
  The card: the image with \<open>src={profileImageUrl}\<close> and \<open>alt={name || 'Profile'}\<close> when
  \<open>profileImageUrl\<close> is truthy, the name and the title as children when they are truthy
  (a falsy value is itself the child), and the links.
\<close>

definition card_throws :: "js_value \<Rightarrow> bool" where
  "card_throws d =
     (let profileImageUrl = get_property d (js ''profileImageUrl'');
          name = get_property d (js ''name'');
          title = get_property d (js ''title'');
          links = get_property d (js ''links'')
      in (property_true profileImageUrl
          \<and> (attribute_throws profileImageUrl \<or> (property_true name \<and> attribute_throws name)))
         \<or> child_throws name \<or> child_throws title \<or> links_throw links)"

text \<open>
  The page shows the invalid-link screen for \<open>!data || Object.keys(data).length === 0\<close>
  and the card otherwise.
\<close>

definition folio_page :: "js_string \<Rightarrow> page" where
  "folio_page encodedData =
     (case folio_decode encodedData of
        None \<Rightarrow> InvalidLink
      | Some d \<Rightarrow>
          (case object_keys_length d of
             Inl e \<Rightarrow> InvalidLink
           | Inr n \<Rightarrow>
               if n = 0 then InvalidLink
               else if card_throws d then RenderError
               else ProfileCard))"

definition shows_profile :: "js_string \<Rightarrow> bool" where
  "shows_profile encodedData = (folio_page encodedData = ProfileCard)"

section \<open>The payload encoder\<close>

datatype QrCodeType = URL | Text | WiFi | Email | SMS | Geo | VCard | Event | WhatsApp | LinkFolio

record link =
  link_title :: js_string
  link_url :: js_string

text \<open>
  \<open>qrData\<close> is a \<open>Record<string, any>\<close>: the form writes a string under each field id,
  and under \<open>links\<close> the list of the folio's links. A field never written is \<open>undefined\<close>.
\<close>

record qr_data =
  text_field :: "string \<Rightarrow> js_string option"
  links :: "link list option"

text \<open>\<open>s.replace(/class/g, r)\<close> for a class of single code units.\<close>

definition replace_all :: "(code_unit \<Rightarrow> bool) \<Rightarrow> js_string \<Rightarrow> js_string \<Rightarrow> js_string" where
  "replace_all cls r s = concat (map (\<lambda>c. if cls c then r else [c]) s)"

text \<open>\<open>s.split(sep)\<close> for a separator of one code unit.\<close>

fun split_on :: "code_unit \<Rightarrow> js_string \<Rightarrow> js_string list" where
  "split_on sep [] = [[]]"
| "split_on sep (c # cs) =
     (if c = sep then [] # split_on sep cs
      else (case split_on sep cs of [] \<Rightarrow> [[c]] | p # ps \<Rightarrow> (c # p) # ps))"

text \<open>\<open>xs[0]\<close> in a string concatenation: a missing element reads \<open>undefined\<close>.\<close>

definition first_piece :: "js_string list \<Rightarrow> js_string" where
  "first_piece xs = (case xs of [] \<Rightarrow> js ''undefined'' | x # _ \<Rightarrow> x)"

definition formatDateTimeForICS :: "js_string option \<Rightarrow> js_string" where
  "formatDateTimeForICS dateTime =
     (if \<not> truthy dateTime then []
      else first_piece (split_on 0x2E (replace_all (\<lambda>c. c = 0x2D \<or> c = 0x3A) [] (the dateTime)))
           @ js ''Z'')"

definition newline :: js_string where
  "newline = [0x0A]"

definition wifi_payload :: "qr_data \<Rightarrow> js_string" where
  "wifi_payload qrData =
     (let enc = or_default (text_field qrData ''encryption'') (js ''WPA'');
          wifiString = js ''WIFI:S:'' @ or_empty (text_field qrData ''ssid'') @ js '';T:'' @ enc @ js '';'';
          wifiString2 =
            (if enc \<noteq> js ''nopass'' \<and> truthy (text_field qrData ''password'')
             then wifiString @ js ''P:'' @ the (text_field qrData ''password'') @ js '';''
             else wifiString)
      in wifiString2 @ js '';'')"

definition vcard_payload :: "qr_data \<Rightarrow> js_string" where
  "vcard_payload qrData =
     js ''BEGIN:VCARD'' @ newline @
     js ''VERSION:3.0'' @ newline @
     js ''N:'' @ or_empty (text_field qrData ''lastName'') @ js '';''
       @ or_empty (text_field qrData ''firstName'') @ newline @
     js ''FN:'' @ or_empty (text_field qrData ''firstName'') @ js '' ''
       @ or_empty (text_field qrData ''lastName'') @ newline @
     js ''ORG:'' @ or_empty (text_field qrData ''organization'') @ newline @
     js ''TITLE:'' @ or_empty (text_field qrData ''title'') @ newline @
     js ''TEL;TYPE=WORK,VOICE:'' @ or_empty (text_field qrData ''phone'') @ newline @
     js ''EMAIL:'' @ or_empty (text_field qrData ''email'') @ newline @
     js ''URL:'' @ or_empty (text_field qrData ''website'') @ newline @
     js ''END:VCARD''"

definition event_payload :: "qr_data \<Rightarrow> js_string" where
  "event_payload qrData =
     js ''BEGIN:VEVENT'' @ newline @
     js ''SUMMARY:'' @ or_empty (text_field qrData ''summary'') @ newline @
     js ''LOCATION:'' @ or_empty (text_field qrData ''location'') @ newline @
     js ''DTSTART:'' @ formatDateTimeForICS (text_field qrData ''dtstart'') @ newline @
     js ''DTEND:'' @ formatDateTimeForICS (text_field qrData ''dtend'') @ newline @
     js ''DESCRIPTION:'' @ or_empty (text_field qrData ''description'') @ newline @
     js ''END:VEVENT''"

definition whatsapp_payload :: "qr_data \<Rightarrow> js_error + js_string" where
  "whatsapp_payload qrData =
     (let cleanPhone = replace_all (\<lambda>c. \<not> is_digit c) [] (or_empty (text_field qrData ''phone''));
          waUrl = js ''https://wa.me/'' @ cleanPhone
      in if truthy (text_field qrData ''message'')
         then prepend (waUrl @ js ''?text='') (encodeURIComponent (the (text_field qrData ''message'')))
         else Inr waUrl)"

definition email_payload :: "qr_data \<Rightarrow> js_error + js_string" where
  "email_payload qrData =
     (case encodeURIComponent (or_empty (text_field qrData ''subject'')) of
        Inl e \<Rightarrow> Inl e
      | Inr subject \<Rightarrow>
          (case encodeURIComponent (or_empty (text_field qrData ''body'')) of
             Inl e \<Rightarrow> Inl e
           | Inr body \<Rightarrow>
               Inr (js ''mailto:'' @ or_empty (text_field qrData ''email'') @ js ''?subject='' @ subject
                    @ js ''&body='' @ body)))"

definition sms_payload :: "qr_data \<Rightarrow> js_error + js_string" where
  "sms_payload qrData =
     prepend (js ''smsto:'' @ or_empty (text_field qrData ''phone'') @ js '':'')
       (encodeURIComponent (or_empty (text_field qrData ''message'')))"

text \<open>A link passes \<open>link && link.title && link.url\<close> when both strings are non-empty.\<close>

definition valid_link :: "link \<Rightarrow> bool" where
  "valid_link l = (link_title l \<noteq> [] \<and> link_url l \<noteq> [])"

definition link_value :: "link \<Rightarrow> js_value" where
  "link_value l = JObj [(js ''title'', JStr (link_title l)), (js ''url'', JStr (link_url l))]"

definition optional_string :: "js_string option \<Rightarrow> js_value" where
  "optional_string x = (case x of None \<Rightarrow> JUndefined | Some s \<Rightarrow> JStr s)"

text \<open>\<open>validLinks\<close> and the object \<open>folioData\<close> of the LinkFolio case.\<close>

definition validLinks :: "qr_data \<Rightarrow> link list" where
  "validLinks qrData = filter valid_link (case links qrData of None \<Rightarrow> [] | Some ls \<Rightarrow> ls)"

definition folioData :: "qr_data \<Rightarrow> js_value" where
  "folioData qrData =
     JObj [(js ''profileImageUrl'', optional_string (text_field qrData ''profileImageUrl'')),
           (js ''name'', optional_string (text_field qrData ''name'')),
           (js ''title'', optional_string (text_field qrData ''title'')),
           (js ''links'', JArr (map link_value (validLinks qrData)))]"

text \<open>
  The token: \<open>utf8ToBase64(JSON.stringify(folioData))\<close>. \<open>JSON.stringify\<close> of an object
  is always a string.
\<close>

definition folio_encode :: "qr_data \<Rightarrow> js_error + js_string" where
  "folio_encode qrData =
     (case JSON_stringify (folioData qrData) of
        None \<Rightarrow> Inl TypeError
      | Some jsonString \<Rightarrow> utf8ToBase64 jsonString)"

definition linkfolio_payload :: "js_string \<Rightarrow> qr_data \<Rightarrow> js_error + js_string" where
  "linkfolio_payload href qrData =
     (case folio_encode qrData of
        Inl e \<Rightarrow> Inl e
      | Inr base64String \<Rightarrow>
          prepend (first_piece (split_on 0x3F href) @ js ''?folio='')
            (encodeURIComponent base64String))"

text \<open>
  The \<open>switch\<close> of the payload effect. \<open>href\<close> is \<open>window.location.href\<close>, read by the
  LinkFolio case only.
\<close>

fun encode_payload :: "js_string \<Rightarrow> QrCodeType \<Rightarrow> qr_data \<Rightarrow> js_error + js_string" where
  "encode_payload href URL qrData = Inr (or_empty (text_field qrData ''url''))"
| "encode_payload href Text qrData = Inr (or_empty (text_field qrData ''text''))"
| "encode_payload href WiFi qrData = Inr (wifi_payload qrData)"
| "encode_payload href Email qrData = email_payload qrData"
| "encode_payload href SMS qrData = sms_payload qrData"
| "encode_payload href Geo qrData =
     Inr (js ''geo:'' @ or_empty (text_field qrData ''latitude'') @ js '','' 
          @ or_empty (text_field qrData ''longitude''))"
| "encode_payload href VCard qrData = Inr (vcard_payload qrData)"
| "encode_payload href Event qrData = Inr (event_payload qrData)"
| "encode_payload href WhatsApp qrData = whatsapp_payload qrData"
| "encode_payload href LinkFolio qrData = linkfolio_payload href qrData"

datatype validation_status = Idle | Success | Failed

text \<open>
  The state of the generator component as far as the payload effect, the validation of
  the standard code and the export read and write it. \<open>error\<close> holds the thrown value
  whose message the component shows; \<open>styling\<close> says that \<open>qrCodeStyling.current\<close> is set;
  \<open>timers\<close> are the pending timers of the validation effect, each with its handle and the
  \<open>qrValue\<close> its callback closed over; \<open>cleanup\<close> is the handle that the cleanup function
  returned by the last run of the effect clears; \<open>validationDue\<close> says that a render with a
  new \<open>qrValue\<close> or a new style object has been committed and the validation effect has
  not run for it yet.
\<close>

record generator_state =
  qrType :: QrCodeType
  qrData :: qr_data
  qrValue :: js_string
  error :: "js_error option"
  aiQrImage :: "js_string option"
  validationStatus :: validation_status
  standardQrValidationStatus :: validation_status
  styling :: bool
  timers :: "(nat \<times> js_string) list"
  nextTimer :: nat
  cleanup :: "nat option"
  validationDue :: bool

text \<open>
  The payload effect, run on every change of \<open>qrData\<close> or \<open>qrType\<close>: a new value clears the
  art image and its status; a throw is stored and clears the value.
\<close>

definition payload_effect :: "js_string \<Rightarrow> generator_state \<Rightarrow> generator_state" where
  "payload_effect href s =
     (case encode_payload href (qrType s) (qrData s) of
        Inr v \<Rightarrow>
          (if qrValue s \<noteq> v
           then s\<lparr>error := None, qrValue := v, aiQrImage := None, validationStatus := Idle\<rparr>
           else s\<lparr>error := None, qrValue := v\<rparr>)
      | Inl e \<Rightarrow> s\<lparr>error := Some e, qrValue := []\<rparr>)"

section \<open>Validation of the standard code\<close>

text \<open>
  What the timer callback finds when it reads the rendered code: no canvas in the
  container, no drawing context, a throw while reading or decoding the pixels, or the
  result of \<open>jsQR\<close> (\<open>None\<close> for \<open>null\<close>, else the decoded text).
\<close>

datatype raster_read = NoCanvas | NoContext | ReadThrows | Decoded "js_string option"

fun validation_check :: "raster_read \<Rightarrow> js_string \<Rightarrow> validation_status" where
  "validation_check NoCanvas captured = Failed"
| "validation_check NoContext captured = Failed"
| "validation_check ReadThrows captured = Failed"
| "validation_check (Decoded None) captured = Failed"
| "validation_check (Decoded (Some t)) captured = (if t = captured then Success else Failed)"

text \<open>\<open>clearTimeout(h)\<close>: the timer \<open>h\<close> is no longer pending.\<close>

definition clearTimeout :: "nat \<Rightarrow> (nat \<times> js_string) list \<Rightarrow> (nat \<times> js_string) list" where
  "clearTimeout h ts = filter (\<lambda>t. fst t \<noteq> h) ts"

text \<open>
  The cleanup React calls before the effect runs again: the function the previous run
  returned, if it returned one.
\<close>

definition validation_cleanup :: "generator_state \<Rightarrow> generator_state" where
  "validation_cleanup s =
     (case cleanup s of
        None \<Rightarrow> s
      | Some h \<Rightarrow> s\<lparr>timers := clearTimeout h (timers s), cleanup := None\<rparr>)"

text \<open>
  The body of the validation effect: the guard, which returns no cleanup, or a new timer
  of 100 ms whose callback closes over the current \<open>qrValue\<close>.
\<close>

definition validation_body :: "generator_state \<Rightarrow> generator_state" where
  "validation_body s =
     (if qrValue s = [] \<or> \<not> styling s
      then s\<lparr>standardQrValidationStatus := Idle, cleanup := None\<rparr>
      else s\<lparr>timers := timers s @ [(nextTimer s, qrValue s)],
             nextTimer := Suc (nextTimer s), cleanup := Some (nextTimer s)\<rparr>)"

text \<open>A change of a dependency: the cleanup of the previous run, then the body.\<close>

definition validation_effect :: "generator_state \<Rightarrow> generator_state" where
  "validation_effect s = validation_body (validation_cleanup s)"

text \<open>The callback of timer \<open>h\<close>, when that timer is pending.\<close>

definition timer_fired :: "nat \<Rightarrow> raster_read \<Rightarrow> generator_state \<Rightarrow> generator_state" where
  "timer_fired h obs s =
     (case map_of (timers s) h of
        None \<Rightarrow> s
      | Some captured \<Rightarrow>
          s\<lparr>standardQrValidationStatus := validation_check obs captured,
            timers := clearTimeout h (timers s)\<rparr>)"

text \<open>
  React runs the validation effect after the render that changed \<open>qrValue\<close> or the style
  object has been committed: first the cleanup the previous run returned, then the body.
  Between the commit and that run the timer of the previous run is still pending and can
  fire. The effects of a commit have run before the next render begins.
\<close>

definition run_effects :: "generator_state \<Rightarrow> generator_state" where
  "run_effects s =
     (if validationDue s then (validation_effect s)\<lparr>validationDue := False\<rparr> else s)"

text \<open>
  The events of the component: the form sets the kind and the data (the payload effect
  runs and, when it stores another \<open>qrValue\<close>, the render with that value is committed);
  a style option is set (always a new object); the effects of the last commit run; a
  pending timer fires.
\<close>

datatype event =
    SetData QrCodeType qr_data
  | StyleChange
  | RunEffects
  | TimerFire nat raster_read

fun step :: "js_string \<Rightarrow> generator_state \<Rightarrow> event \<Rightarrow> generator_state" where
  "step href s (SetData t d) =
     (let s0 = run_effects s;
          s1 = payload_effect href (s0\<lparr>qrType := t, qrData := d\<rparr>)
      in if qrValue s1 = qrValue s0 then s1 else s1\<lparr>validationDue := True\<rparr>)"
| "step href s StyleChange = (run_effects s)\<lparr>validationDue := True\<rparr>"
| "step href s RunEffects = run_effects s"
| "step href s (TimerFire h obs) = timer_fired h obs s"

definition run :: "js_string \<Rightarrow> generator_state \<Rightarrow> event list \<Rightarrow> generator_state" where
  "run href s es = foldl (step href) s es"

text \<open>The state after the component mounted: the initial values, the effects run once.\<close>

definition initial_data :: qr_data where
  "initial_data = \<lparr>text_field = [''url'' \<mapsto> js ''https://ai.google.dev''], links = None\<rparr>"

definition mounted :: generator_state where
  "mounted =
     \<lparr>qrType = URL, qrData = initial_data, qrValue = js ''https://ai.google.dev'',
      error = None, aiQrImage = None, validationStatus = Idle,
      standardQrValidationStatus = Idle, styling = True,
      timers = [(0, js ''https://ai.google.dev'')], nextTimer = 1, cleanup = Some 0,
      validationDue = False\<rparr>"

text \<open>
  What an event publishes as the status of the standard code: a timer callback
  publishes the outcome of its check, together with the payload the check was started
  against.
\<close>

definition published :: "generator_state \<Rightarrow> event \<Rightarrow> (js_string \<times> validation_status) option" where
  "published s e =
     (case e of
        TimerFire h obs \<Rightarrow>
          (case map_of (timers s) h of
             None \<Rightarrow> None
           | Some captured \<Rightarrow> Some (captured, validation_check obs captured))
      | _ \<Rightarrow> None)"


text \<open>
  The invariant of the component: at most one timer is pending; it is the one the next
  cleanup clears, its handle is older than the next handle, and it was started against a
  payload that is not empty, which is the live payload unless a run of the effect is due.
\<close>

definition tracked :: "generator_state \<Rightarrow> bool" where
  "tracked s =
     (case timers s of
        [] \<Rightarrow> True
      | [t] \<Rightarrow> cleanup s = Some (fst t) \<and> fst t < nextTimer s \<and> snd t \<noteq> []
               \<and> (if validationDue s then True else snd t = qrValue s)
      | _ \<Rightarrow> False)"

text \<open>An event that is no timer callback: a change made by the user, or a run of the effect.\<close>

fun is_change :: "event \<Rightarrow> bool" where
  "is_change (TimerFire h obs) = False"
| "is_change e = True"

section \<open>The batch export\<close>

text \<open>
  The capabilities the export awaits: each promise resolves or rejects with a thrown
  value, an \<open>Error\<close> with its message or something else.
\<close>

datatype thrown = ErrorObject js_string | NonError

datatype 'a outcome = Rejects thrown | Resolves 'a

record 'b export_env =
  getRawData_png :: "'b option outcome"
  getRawData_svg :: "'b option outcome"
  fetch_blob :: "'b option outcome"
  generateAsync :: "(string \<times> 'b) list \<Rightarrow> 'b outcome"

text \<open>
  What one call of \<open>handleBatchExport\<close> does: the progress values it sets, the entries of
  the archive in memory, the messages it passes to \<open>setError\<close>, and the download it starts.
\<close>

record 'b export_run =
  progress_log :: "(nat \<times> string) list"
  zip_entries :: "(string \<times> 'b) list"
  errors :: "js_string list"
  download :: "(string \<times> 'b) option"

text \<open>\<open>if (blob) zip.file(name, blob)\<close>.\<close>

definition zip_file :: "string \<Rightarrow> 'b option \<Rightarrow> (string \<times> 'b) list \<Rightarrow> (string \<times> 'b) list" where
  "zip_file name blob entries =
     (case blob of None \<Rightarrow> entries | Some b \<Rightarrow> filter (\<lambda>e. fst e \<noteq> name) entries @ [(name, b)])"

definition set_progress :: "nat \<Rightarrow> string \<Rightarrow> 'b export_run \<Rightarrow> 'b export_run" where
  "set_progress p m r = r\<lparr>progress_log := progress_log r @ [(p, m)]\<rparr>"

text \<open>A stage that adds a file: the progress, the awaited blob, the entry.\<close>

definition add_stage :: "nat \<Rightarrow> string \<Rightarrow> string \<Rightarrow> 'b option outcome \<Rightarrow> 'b export_run
    \<Rightarrow> (thrown \<times> 'b export_run) + 'b export_run" where
  "add_stage p m name blob r =
     (case blob of
        Rejects t \<Rightarrow> Inl (t, set_progress p m r)
      | Resolves b \<Rightarrow>
          Inr ((set_progress p m r)\<lparr>zip_entries := zip_file name b (zip_entries (set_progress p m r))\<rparr>))"

definition compress_stage :: "'b export_env \<Rightarrow> 'b export_run \<Rightarrow> (thrown \<times> 'b export_run) + 'b export_run" where
  "compress_stage env r =
     (case generateAsync env (zip_entries r) of
        Rejects t \<Rightarrow> Inl (t, set_progress 90 ''Compressing files...'' r)
      | Resolves content \<Rightarrow>
          Inr ((set_progress 100 ''Download starting...'' (set_progress 90 ''Compressing files...'' r))
                 \<lparr>download := Some (''qr-master-pro-export.zip'', content)\<rparr>))"

definition and_then :: "(thrown \<times> 'b export_run) + 'b export_run
    \<Rightarrow> ('b export_run \<Rightarrow> (thrown \<times> 'b export_run) + 'b export_run)
    \<Rightarrow> (thrown \<times> 'b export_run) + 'b export_run" where
  "and_then x f = (case x of Inl e \<Rightarrow> Inl e | Inr r \<Rightarrow> f r)"

text \<open>\<open>if (aiQrImage)\<close>: the art image is a non-empty data URL.\<close>

definition has_art :: "generator_state \<Rightarrow> bool" where
  "has_art s = (aiQrImage s \<noteq> None \<and> aiQrImage s \<noteq> Some [])"

text \<open>The \<open>try\<close> block: the stages one after the other.\<close>

definition export_stages :: "'b export_env \<Rightarrow> generator_state \<Rightarrow> (thrown \<times> 'b export_run) + 'b export_run" where
  "export_stages env s =
     and_then
       (and_then
          (and_then
             (add_stage 10 ''Adding standard-qr.png...'' ''standard-qr.png'' (getRawData_png env)
                \<lparr>progress_log = [(0, ''Starting export...'')], zip_entries = [], errors = [],
                 download = None\<rparr>)
             (add_stage 30 ''Adding standard-qr.svg...'' ''standard-qr.svg'' (getRawData_svg env)))
          (\<lambda>r. if has_art s
               then add_stage 60 ''Adding ai-art-qr.png...'' ''ai-art-qr.png'' (fetch_blob env) r
               else Inr r))
       (compress_stage env)"

text \<open>The \<open>catch\<close>: the message of an \<open>Error\<close>, a fixed text for anything else.\<close>

definition catch_message :: "thrown \<Rightarrow> js_string" where
  "catch_message t = (case t of ErrorObject m \<Rightarrow> m | NonError \<Rightarrow> js ''Failed to create ZIP file.'')"

definition handleBatchExport :: "'b export_env \<Rightarrow> generator_state \<Rightarrow> 'b export_run" where
  "handleBatchExport env s =
     (if qrValue s = [] \<or> \<not> styling s
      then \<lparr>progress_log = [], zip_entries = [], errors = [js ''Please generate a QR code first.''],
            download = None\<rparr>
      else
        (case export_stages env s of
           Inl (t, r) \<Rightarrow> r\<lparr>errors := errors r @ [catch_message t]\<rparr>
         | Inr r \<Rightarrow> r))"

text \<open>The stages in their order, and the first of them whose capability rejects.\<close>

datatype export_stage = StagePng | StageSvg | StageAi | StageCompress

definition rejects :: "'a outcome \<Rightarrow> bool" where
  "rejects x = (case x of Rejects t \<Rightarrow> True | Resolves v \<Rightarrow> False)"

definition resolved :: "'a option outcome \<Rightarrow> 'a option" where
  "resolved x = (case x of Rejects t \<Rightarrow> None | Resolves v \<Rightarrow> v)"

text \<open>The entries the archive holds when every stage before the compression resolved.\<close>

definition entries_before_compress :: "'b export_env \<Rightarrow> generator_state \<Rightarrow> (string \<times> 'b) list" where
  "entries_before_compress env s =
     (let e1 = zip_file ''standard-qr.png'' (resolved (getRawData_png env)) [];
          e2 = zip_file ''standard-qr.svg'' (resolved (getRawData_svg env)) e1
      in if has_art s then zip_file ''ai-art-qr.png'' (resolved (fetch_blob env)) e2 else e2)"

definition rejection :: "'a outcome \<Rightarrow> thrown" where
  "rejection x = (case x of Rejects t \<Rightarrow> t | Resolves v \<Rightarrow> NonError)"

definition failure :: "'b export_env \<Rightarrow> generator_state \<Rightarrow> (export_stage \<times> thrown) option" where
  "failure env s =
     (if rejects (getRawData_png env) then Some (StagePng, rejection (getRawData_png env))
      else if rejects (getRawData_svg env) then Some (StageSvg, rejection (getRawData_svg env))
      else if has_art s \<and> rejects (fetch_blob env) then Some (StageAi, rejection (fetch_blob env))
      else if rejects (generateAsync env (entries_before_compress env s))
        then Some (StageCompress, rejection (generateAsync env (entries_before_compress env s)))
      else None)"

text \<open>The files the stages before a given one can have added.\<close>

fun files_before :: "export_stage \<Rightarrow> string list" where
  "files_before StagePng = []"
| "files_before StageSvg = [''standard-qr.png'']"
| "files_before StageAi = [''standard-qr.png'', ''standard-qr.svg'']"
| "files_before StageCompress = [''standard-qr.png'', ''standard-qr.svg'', ''ai-art-qr.png'']"

section \<open>Notions used in the proofs\<close>

subsection \<open>Octets and base64\<close>

definition octets :: "nat list \<Rightarrow> bool" where
  "octets bs = list_all (\<lambda>b. b < 256) bs"

text \<open>The six-bit values \<open>base64_encode\<close> writes, and the padding it appends.\<close>

fun base64_body :: "nat list \<Rightarrow> nat list" where
  "base64_body [] = []"
| "base64_body [a] = [a div 4, (a mod 4) * 16]"
| "base64_body [a, b] = [a div 4, (a mod 4) * 16 + b div 16, (b mod 16) * 4]"
| "base64_body (a # b # c # rest) =
     [a div 4, (a mod 4) * 16 + b div 16, (b mod 16) * 4 + c div 64, c mod 64] @ base64_body rest"

fun base64_padding :: "nat list \<Rightarrow> js_string" where
  "base64_padding [] = []"
| "base64_padding [a] = [equals_sign, equals_sign]"
| "base64_padding [a, b] = [equals_sign]"
| "base64_padding (a # b # c # rest) = base64_padding rest"

subsection \<open>Well-formed UTF-16 and its UTF-8 octets\<close>

text \<open>A string is well formed when every surrogate is half of a pair.\<close>

fun well_formed :: "js_string \<Rightarrow> bool" where
  "well_formed [] = True"
| "well_formed (c # cs) =
     (if is_lead c then (case cs of [] \<Rightarrow> False | d # ds \<Rightarrow> is_trail d \<and> well_formed ds)
      else \<not> is_trail c \<and> well_formed cs)"

fun utf8 :: "js_string \<Rightarrow> nat list" where
  "utf8 [] = []"
| "utf8 (c # cs) =
     (if is_lead c then (case cs of [] \<Rightarrow> [] | d # ds \<Rightarrow> utf8_octets (pair_code_point c d) @ utf8 ds)
      else utf8_octets (unat c) @ utf8 cs)"

text \<open>A Unicode scalar value: a code point that is no surrogate.\<close>

definition scalar :: "nat \<Rightarrow> bool" where
  "scalar cp = (cp < 0x110000 \<and> \<not> (0xD800 \<le> cp \<and> cp < 0xE000))"

subsection \<open>JSON texts that parse back\<close>

text \<open>
  \<open>parses v t\<close>: the text \<open>t\<close> starts a value, and read with at least as much fuel as it
  has characters it gives \<open>v\<close> and leaves what follows it.
\<close>

definition parses :: "js_value \<Rightarrow> js_string \<Rightarrow> bool" where
  "parses v t \<longleftrightarrow>
     t \<noteq> [] \<and> \<not> json_whitespace (hd t) \<and> hd t \<noteq> 0x5D
     \<and> (\<forall>m rest. length t \<le> m \<longrightarrow> parse_value m (t @ rest) = Some (v, rest))"

definition member_text :: "js_string \<Rightarrow> js_string \<Rightarrow> js_string" where
  "member_text k t = quote_json k @ js '':'' @ t"

text \<open>
  The values \<open>JSON.parse\<close> gives back as they were: no \<open>undefined\<close>, no number (a number
  is written by \<open>Number::toString\<close>, which is not modelled), no key twice in an object.
\<close>

fun jsonable :: "js_value \<Rightarrow> bool" where
  "jsonable JUndefined = False"
| "jsonable JNull = True"
| "jsonable (JBool b) = True"
| "jsonable (JNum n) = False"
| "jsonable (JStr s) = True"
| "jsonable (JArr vs) = list_all jsonable vs"
| "jsonable (JObj ms) = (distinct (map fst ms) \<and> list_all (\<lambda>kv. jsonable (snd kv)) ms)"

definition text_of :: "js_value \<Rightarrow> js_string" where
  "text_of v = (case serialize v of None \<Rightarrow> [] | Some t \<Rightarrow> t)"

definition round_trips :: "js_value \<Rightarrow> bool" where
  "round_trips v \<longleftrightarrow> serialize v = Some (text_of v) \<and> parses v (text_of v) \<and> well_formed (text_of v)"

subsection \<open>The profile as it is transmitted\<close>

text \<open>The object \<open>folioData\<close> without its \<open>undefined\<close> properties.\<close>

definition present :: "string \<Rightarrow> qr_data \<Rightarrow> (js_string \<times> js_value) list" where
  "present k d = (case text_field d k of None \<Rightarrow> [] | Some s \<Rightarrow> [(js k, JStr s)])"

definition stored_profile :: "qr_data \<Rightarrow> js_value" where
  "stored_profile d =
     JObj (present ''profileImageUrl'' d @ present ''name'' d @ present ''title'' d
           @ [(js ''links'', JArr (map link_value (validLinks d)))])"

text \<open>
  The compact JSON object of a profile as the specification words it: an absent optional
  field has no member, the links are those with a non-empty title and a non-empty url,
  and nothing stands between the tokens.
\<close>

definition compact_member :: "string \<Rightarrow> js_string option \<Rightarrow> js_string list" where
  "compact_member k x =
     (case x of None \<Rightarrow> [] | Some s \<Rightarrow> [quote_json (js k) @ js '':'' @ quote_json s])"

definition compact_link :: "link \<Rightarrow> js_string" where
  "compact_link l =
     js ''{'' @ quote_json (js ''title'') @ js '':'' @ quote_json (link_title l) @ js '',''
       @ quote_json (js ''url'') @ js '':'' @ quote_json (link_url l) @ js ''}''"

definition compact_profile_json :: "qr_data \<Rightarrow> js_string" where
  "compact_profile_json d =
     js ''{'' @
     join (js '','')
       (compact_member ''profileImageUrl'' (text_field d ''profileImageUrl'')
        @ compact_member ''name'' (text_field d ''name'')
        @ compact_member ''title'' (text_field d ''title'')
        @ [quote_json (js ''links'') @ js '':['' @
           join (js '','')
             (map compact_link (filter valid_link (case links d of None \<Rightarrow> [] | Some ls \<Rightarrow> ls)))
           @ js '']'']) @
     js ''}''"

section \<open>Concrete inputs used below\<close>

definition wifi_open :: qr_data where
  "wifi_open =
     \<lparr>text_field = [''ssid'' \<mapsto> js ''X'', ''encryption'' \<mapsto> js ''nopass'',
                    ''password'' \<mapsto> js ''secret''],
      links = None\<rparr>"

definition wifi_default :: qr_data where
  "wifi_default =
     \<lparr>text_field = [''ssid'' \<mapsto> js ''X'', ''password'' \<mapsto> js ''secret''], links = None\<rparr>"

definition wifi_wep_empty :: qr_data where
  "wifi_wep_empty =
     \<lparr>text_field = [''ssid'' \<mapsto> js ''Home'', ''encryption'' \<mapsto> js ''WEP'', ''password'' \<mapsto> []],
      links = None\<rparr>"


definition stale_state :: generator_state where
  "stale_state =
     mounted\<lparr>qrValue := js ''stale'', error := Some URIError,
             aiQrImage := Some (js ''data:x''), validationStatus := Failed\<rparr>"

definition url_data :: "string \<Rightarrow> qr_data" where
  "url_data u = \<lparr>text_field = [''url'' \<mapsto> js u], links = None\<rparr>"

definition three_changes :: "event list" where
  "three_changes =
     [SetData URL (url_data ''a''), SetData URL (url_data ''b''), SetData URL (url_data ''c'')]"

text \<open>The payload changes from \<open>b\<close> to \<open>c\<close> after the effect has run for \<open>b\<close>.\<close>

definition changes_b_c :: "event list" where
  "changes_b_c =
     [SetData URL (url_data ''a''), SetData URL (url_data ''b''), RunEffects,
      SetData URL (url_data ''c'')]"

text \<open>The token of the text \<open>{"links":"x"}\<close>.\<close>

definition links_text_token :: js_string where
  "links_text_token = js ''eyJsaW5rcyI6IngifQ==''"

definition png_fails :: "nat export_env" where
  "png_fails =
     \<lparr>getRawData_png = Rejects (ErrorObject (js ''Canvas is not ready'')),
      getRawData_svg = Resolves (Some 2), fetch_blob = Resolves (Some 3),
      generateAsync = (\<lambda>fs. Resolves 4)\<rparr>"

definition svg_rejects_value :: "nat export_env" where
  "svg_rejects_value =
     \<lparr>getRawData_png = Resolves (Some 1), getRawData_svg = Rejects NonError,
      fetch_blob = Resolves (Some 3), generateAsync = (\<lambda>fs. Resolves 4)\<rparr>"

definition svg_fails :: "nat export_env" where
  "svg_fails =
     \<lparr>getRawData_png = Resolves (Some 1),
      getRawData_svg = Rejects (ErrorObject (js ''Canvas is not ready'')),
      fetch_blob = Resolves (Some 3), generateAsync = (\<lambda>fs. Resolves 4)\<rparr>"

text \<open>
  A profile whose name is \<open>Jos\<close>, U+00E9, a space and U+1F389 (a surrogate pair), with an
  empty title, no image, one complete link and one link without a title; and its token,
  the base64 of the UTF-8 octets of its JSON text.
\<close>

definition jose :: qr_data where
  "jose =
     \<lparr>text_field = [''name'' \<mapsto> [0x4A, 0x6F, 0x73, 0xE9, 0x20, 0xD83C, 0xDF89], ''title'' \<mapsto> []],
      links = Some [\<lparr>link_title = js ''Website'', link_url = js ''https://''\<rparr>,
                    \<lparr>link_title = [], link_url = js ''https://example.com''\<rparr>]\<rparr>"

definition jose_token :: js_string where
  "jose_token =
     js ''eyJuYW1lIjoiSm9zw6kg8J+OiSIsInRpdGxlIjoiIiwibGlua3MiOlt7InRpdGxlIjoiV2Vic2l0ZSIsInVybCI6Imh0dHBzOi8vIn1dfQ==''"

text \<open>The token of the JSON text \<open>{"foo":1}\<close>.\<close>

definition foo_token :: js_string where
  "foo_token = js ''eyJmb28iOjF9''"

section \<open>The payload encoder: WiFi, calendar events, determinism\<close>




text \<open>
  C4. With encryption \<open>nopass\<close> the WiFi payload is \<open>WIFI:S:X;T:nopass;;\<close> for every ssid
  \<open>X\<close>, whatever the password field holds; with no encryption field the type is \<open>WPA\<close>.
\<close>

theorem wifi_nopass:
  "(text_field d ''ssid'' = Some X \<and> text_field d ''encryption'' = Some (js ''nopass'')
      \<longrightarrow> encode_payload href WiFi d = Inr (js ''WIFI:S:'' @ X @ js '';T:nopass;;''))
   \<and> (text_field d ''encryption'' = None
      \<longrightarrow> encode_payload href WiFi d =
            Inr (js ''WIFI:S:'' @ or_empty (text_field d ''ssid'') @ js '';T:WPA;''
                 @ (if truthy (text_field d ''password'')
                    then js ''P:'' @ the (text_field d ''password'') @ js '';'' else [])
                 @ js '';''))"
  by (simp add: wifi_payload_def or_default_def or_empty_def js_def Let_def)

theorem wifi_nopass_witness:
  "encode_payload [] WiFi wifi_open = Inr (js ''WIFI:S:X;T:nopass;;'')
   \<and> encode_payload [] WiFi wifi_default = Inr (js ''WIFI:S:X;T:WPA;P:secret;;'')"
  using wifi_nopass [of wifi_open "js ''X''" "[]"] wifi_nopass [of wifi_default "[]" "[]"]
  by (simp add: wifi_open_def wifi_default_def js_def or_empty_def truthy_def)

text \<open>
  C10. The \<open>P:\<close> segment of a WiFi payload is written exactly when the encryption is
  not \<open>nopass\<close> and the password is a non-empty string; with an encryption other than
  \<open>nopass\<close> and an empty or absent password the payload is \<open>WIFI:S:ssid;T:enc;;\<close>.
\<close>

theorem wifi_password_segment:
  "encode_payload href WiFi d =
     Inr (js ''WIFI:S:'' @ or_empty (text_field d ''ssid'') @ js '';T:''
          @ or_default (text_field d ''encryption'') (js ''WPA'') @ js '';''
          @ (if or_default (text_field d ''encryption'') (js ''WPA'') \<noteq> js ''nopass''
                \<and> truthy (text_field d ''password'')
             then js ''P:'' @ the (text_field d ''password'') @ js '';'' else [])
          @ js '';'')
   \<and> (or_default (text_field d ''encryption'') (js ''WPA'') \<noteq> js ''nopass''
        \<and> (text_field d ''password'' = None \<or> text_field d ''password'' = Some [])
      \<longrightarrow> encode_payload href WiFi d =
            Inr (js ''WIFI:S:'' @ or_empty (text_field d ''ssid'') @ js '';T:''
                 @ or_default (text_field d ''encryption'') (js ''WPA'') @ js '';;''))"
  by (auto simp add: wifi_payload_def Let_def truthy_def js_def split: option.splits)

theorem wifi_password_segment_witness:
  "encode_payload [] WiFi wifi_wep_empty = Inr (js ''WIFI:S:Home;T:WEP;;'')"
  using wifi_password_segment [of "[]" wifi_wep_empty]
  by (simp add: wifi_wep_empty_def js_def or_empty_def or_default_def truthy_def)



text \<open>
  C9. The payload the effect stores is a function of the kind, the field values and the
  page address alone: two runs that agree on them store the same payload (and the same
  error), whatever else the state held before.
\<close>

theorem payload_deterministic:
  "(qrType s = qrType s' \<and> qrData s = qrData s'
      \<longrightarrow> qrValue (payload_effect href s) = qrValue (payload_effect href s')
          \<and> error (payload_effect href s) = error (payload_effect href s'))
   \<and> qrValue (payload_effect href s)
        = (case encode_payload href (qrType s) (qrData s) of Inr v \<Rightarrow> v | Inl e \<Rightarrow> [])"
  by (auto simp: payload_effect_def split: sum.splits)

theorem payload_deterministic_witness:
  "qrValue (payload_effect [] mounted) = qrValue (payload_effect [] stale_state)
   \<and> qrValue (payload_effect [] mounted) = js ''https://ai.google.dev''"
proof -
  have "qrType mounted = qrType stale_state \<and> qrData mounted = qrData stale_state"
    by (simp add: stale_state_def)
  moreover have "encode_payload [] (qrType mounted) (qrData mounted) = Inr (js ''https://ai.google.dev'')"
    by (simp add: mounted_def initial_data_def or_empty_def)
  ultimately show ?thesis
    using payload_deterministic [of mounted stale_state "[]"] by auto
qed

section \<open>Validation: superseded checks and acquisition failures\<close>

lemma payload_effect_timers [simp]:
  "timers (payload_effect href s) = timers s"
  "cleanup (payload_effect href s) = cleanup s"
  "styling (payload_effect href s) = styling s"
  "nextTimer (payload_effect href s) = nextTimer s"
  "validationDue (payload_effect href s) = validationDue s"
  by (auto simp: payload_effect_def split: sum.splits)


lemma tracked_mounted: "tracked mounted"
  by (simp add: tracked_def mounted_def js_def)

lemma tracked_run_effects:
  assumes "tracked s"
  shows "tracked (run_effects s)" and "\<not> validationDue (run_effects s)"
  using assms
  by (auto simp: tracked_def run_effects_def validation_effect_def validation_body_def
        validation_cleanup_def clearTimeout_def split: list.splits option.splits if_splits)

lemma tracked_timer_fired: "tracked s \<Longrightarrow> tracked (timer_fired h obs s)"
  by (auto simp: tracked_def timer_fired_def clearTimeout_def split: list.splits option.splits if_splits)

lemma tracked_due: "tracked s \<Longrightarrow> tracked (s\<lparr>validationDue := True\<rparr>)"
  by (auto simp: tracked_def split: list.splits)

lemma tracked_step: "tracked s \<Longrightarrow> tracked (step href s e)"
proof (cases e)
  case (SetData t d)
  assume f: "tracked s"
  let ?s0 = "run_effects s"
  let ?s1 = "payload_effect href (?s0\<lparr>qrType := t, qrData := d\<rparr>)"
  have t0: "tracked ?s0" and d0: "\<not> validationDue ?s0" using f by (rule tracked_run_effects)+
  show ?thesis
  proof (cases "qrValue ?s1 = qrValue ?s0")
    case True
    with t0 d0 have "tracked ?s1" by (auto simp: tracked_def split: list.splits)
    with True SetData show ?thesis by (simp add: Let_def)
  next
    case False
    from t0 have "tracked (?s1\<lparr>validationDue := True\<rparr>)"
      by (auto simp: tracked_def split: list.splits)
    with False SetData show ?thesis by (simp add: Let_def)
  qed
next
  case StyleChange
  assume "tracked s"
  then show ?thesis using StyleChange tracked_due [OF tracked_run_effects(1)] by simp
next
  case RunEffects
  assume "tracked s"
  then show ?thesis using RunEffects tracked_run_effects(1) by simp
next
  case (TimerFire h obs)
  assume "tracked s"
  then show ?thesis using TimerFire tracked_timer_fired by simp
qed

lemma tracked_run: "tracked s \<Longrightarrow> tracked (run href s es)"
  unfolding run_def by (induction es arbitrary: s) (simp_all add: tracked_step)

lemma tracked_published:
  assumes "tracked s" "\<not> validationDue s" "published s (TimerFire h obs) = Some (p, r)"
  shows "p = qrValue s \<and> r = validation_check obs (qrValue s)
         \<and> standardQrValidationStatus (step href s (TimerFire h obs)) = r"
  using assms
  by (auto simp: tracked_def published_def timer_fired_def split: list.splits option.splits if_splits)

lemma tracked_cancelled:
  assumes "tracked s" "validationDue s" "map_of (timers s) h = Some p"
  shows "published (step href s RunEffects) (TimerFire h obs) = None"
  using assms
  by (auto simp: tracked_def published_def run_effects_def validation_effect_def validation_body_def
        validation_cleanup_def clearTimeout_def split: list.splits option.splits if_splits)

lemma unpublished_no_change:
  "published s (TimerFire h obs) = None \<Longrightarrow> step href s (TimerFire h obs) = s"
  by (auto simp: published_def timer_fired_def split: option.splits)

lemma run_three_changes:
  "timers (run [] mounted three_changes) = [(2, js ''b'')]"
  "qrValue (run [] mounted three_changes) = js ''c''"
  "validationDue (run [] mounted three_changes)"
  "standardQrValidationStatus (run [] mounted three_changes) = Idle"
  by (simp_all add: run_def three_changes_def mounted_def url_data_def payload_effect_def
        run_effects_def validation_effect_def validation_body_def validation_cleanup_def
        clearTimeout_def or_empty_def js_def)

lemma run_three_changes_effects:
  "timers (run [] mounted (three_changes @ [RunEffects])) = [(3, js ''c'')]"
  "qrValue (run [] mounted (three_changes @ [RunEffects])) = js ''c''"
  "\<not> validationDue (run [] mounted (three_changes @ [RunEffects]))"
  by (simp_all add: run_def three_changes_def mounted_def url_data_def payload_effect_def
        run_effects_def validation_effect_def validation_body_def validation_cleanup_def
        clearTimeout_def or_empty_def js_def)

lemma change_status:
  "is_change e \<Longrightarrow>
     standardQrValidationStatus (step href s e) = standardQrValidationStatus s
     \<or> standardQrValidationStatus (step href s e) = Idle"
  by (cases e)
    (auto simp: payload_effect_def run_effects_def validation_effect_def validation_body_def
      validation_cleanup_def Let_def split: sum.splits option.splits)

lemma changes_status:
  "list_all is_change es \<Longrightarrow>
     standardQrValidationStatus (run href s es) = standardQrValidationStatus s
     \<or> standardQrValidationStatus (run href s es) = Idle"
proof (induction es arbitrary: s)
  case Nil
  show ?case by (simp add: run_def)
next
  case (Cons e es)
  then have e: "is_change e" and es: "list_all is_change es" by simp_all
  have r: "run href s (e # es) = run href (step href s e) es" by (simp add: run_def)
  show ?case
    using Cons.IH [OF es, of "step href s e"] change_status [OF e, of href s]
    unfolding r by auto
qed

text \<open>
  C6, where the code departs from it. A timer callback has no test of freshness: it
  compares what it read with the payload it closed over and publishes. What keeps a
  superseded check from publishing is the cleanup of the effect, and that runs only when
  the effect runs again, after the render with the new payload has been committed. In
  between the old timer can fire. After the payload changed from the initial one to \<open>a\<close>,
  the timer of the initial payload publishes Success while the live payload is \<open>a\<close>; and
  when the payload changes from \<open>b\<close> to \<open>c\<close>, the timer of \<open>b\<close> can publish while the live
  payload is \<open>c\<close>.
\<close>

theorem stale_check_publishes_before_cleanup:
  "qrValue (run [] mounted [SetData URL (url_data ''a'')]) = js ''a''
   \<and> published (run [] mounted [SetData URL (url_data ''a'')])
         (TimerFire 0 (Decoded (Some (js ''https://ai.google.dev''))))
       = Some (js ''https://ai.google.dev'', Success)
   \<and> standardQrValidationStatus
        (run [] mounted [SetData URL (url_data ''a''),
                         TimerFire 0 (Decoded (Some (js ''https://ai.google.dev'')))]) = Success
   \<and> qrValue
        (run [] mounted [SetData URL (url_data ''a''),
                         TimerFire 0 (Decoded (Some (js ''https://ai.google.dev'')))]) = js ''a''
   \<and> js ''a'' \<noteq> js ''https://ai.google.dev''
   \<and> published (run [] mounted changes_b_c) (TimerFire 2 (Decoded (Some (js ''b''))))
       = Some (js ''b'', Success)
   \<and> qrValue (run [] mounted changes_b_c) = js ''c''
   \<and> js ''b'' \<noteq> js ''c''"
  by (simp add: run_def changes_b_c_def mounted_def url_data_def payload_effect_def
        run_effects_def validation_effect_def validation_body_def validation_cleanup_def
        clearTimeout_def or_empty_def js_def published_def timer_fired_def)

text \<open>
  C6, as the code has it. From a state that satisfies the invariant, after any sequence
  of events: once the validation effect has run for the last change, a timer callback
  that publishes was started against the live payload, and the status it sets is the
  outcome of the check against that payload; the run of the effect cancels the check
  that was pending before it, whose timer publishes nothing afterwards; after a run of
  the effect none is due; a timer that is not pending changes nothing; at most one timer
  is pending. And changes and runs of the effect alone, however many, publish no
  outcome: they leave the status as it was or set it to Idle.
\<close>

theorem superseded_check_cancelled:
  assumes "tracked s"
  shows "(\<not> validationDue (run href s es)
            \<and> published (run href s es) (TimerFire h obs) = Some (p, r)
            \<longrightarrow> p = qrValue (run href s es) \<and> r = validation_check obs (qrValue (run href s es))
                \<and> standardQrValidationStatus (step href (run href s es) (TimerFire h obs)) = r)
         \<and> (validationDue (run href s es) \<and> map_of (timers (run href s es)) h = Some p
            \<longrightarrow> published (step href (run href s es) RunEffects) (TimerFire h obs) = None)
         \<and> \<not> validationDue (step href (run href s es) RunEffects)
         \<and> (published (run href s es) (TimerFire h obs) = None
            \<longrightarrow> step href (run href s es) (TimerFire h obs) = run href s es)
         \<and> length (timers (run href s es)) \<le> 1
         \<and> (list_all is_change es
            \<longrightarrow> standardQrValidationStatus (run href s es) = standardQrValidationStatus s
                \<or> standardQrValidationStatus (run href s es) = Idle)"
proof -
  have f: "tracked (run href s es)" using assms by (rule tracked_run)
  have l: "length (timers (run href s es)) \<le> 1"
    using f by (auto simp: tracked_def split: list.splits)
  have d: "\<not> validationDue (step href (run href s es) RunEffects)"
    using tracked_run_effects(2) [OF f] by simp
  show ?thesis
    using l d tracked_published [OF f, of h obs p r href] tracked_cancelled [OF f, of h p href obs]
      unpublished_no_change [of "run href s es" h obs href] changes_status [of es href s]
    by blast
qed

theorem superseded_check_cancelled_witness:
  "tracked mounted
   \<and> validationDue (run [] mounted three_changes)
   \<and> map_of (timers (run [] mounted three_changes)) 2 = Some (js ''b'')
   \<and> published (step [] (run [] mounted three_changes) RunEffects)
         (TimerFire 2 (Decoded (Some (js ''b'')))) = None
   \<and> published (run [] mounted (three_changes @ [RunEffects]))
         (TimerFire 3 (Decoded (Some (js ''c'')))) = Some (js ''c'', Success)
   \<and> standardQrValidationStatus
        (step [] (run [] mounted (three_changes @ [RunEffects]))
           (TimerFire 3 (Decoded (Some (js ''c''))))) = Success"
proof -
  have m: "map_of (timers (run [] mounted three_changes)) 2 = Some (js ''b'')"
    by (simp add: run_three_changes)
  have p3: "published (run [] mounted (three_changes @ [RunEffects]))
         (TimerFire 3 (Decoded (Some (js ''c'')))) = Some (js ''c'', Success)"
    by (simp add: published_def run_three_changes_effects)
  have a: "published (step [] (run [] mounted three_changes) RunEffects)
         (TimerFire 2 (Decoded (Some (js ''b'')))) = None"
    using m run_three_changes(3)
      superseded_check_cancelled [OF tracked_mounted, of "[]" three_changes 2
        "Decoded (Some (js ''b''))" "js ''b''" Success]
    by blast
  have b: "standardQrValidationStatus
        (step [] (run [] mounted (three_changes @ [RunEffects]))
           (TimerFire 3 (Decoded (Some (js ''c''))))) = Success"
    using p3 run_three_changes_effects(3)
      superseded_check_cancelled [OF tracked_mounted, of "[]" "three_changes @ [RunEffects]" 3
        "Decoded (Some (js ''c''))" "js ''c''" Success]
    by blast
  show ?thesis
    using tracked_mounted run_three_changes(3) m a p3 b by blast
qed



section \<open>The batch export: failures\<close>

text \<open>
  C5, as the code has it. When a stage rejects, the export starts no download, passes
  exactly one message to \<open>setError\<close>, namely the message of the rejected \<open>Error\<close> (or the
  fixed text for another thrown value), and the archive in memory holds files of earlier
  stages only.
\<close>

theorem export_failure_aborts:
  assumes "qrValue s \<noteq> []" and "styling s" and "failure env s = Some (k, t)"
  shows "download (handleBatchExport env s) = None
         \<and> errors (handleBatchExport env s) = [catch_message t]
         \<and> set (map fst (zip_entries (handleBatchExport env s))) \<subseteq> set (files_before k)"
proof (cases "getRawData_png env")
  case png: (Rejects t1)
  then show ?thesis using assms
    by (auto simp: handleBatchExport_def export_stages_def and_then_def add_stage_def
        failure_def rejects_def rejection_def set_progress_def)
next
  case png: (Resolves b1)
  show ?thesis
  proof (cases "getRawData_svg env")
    case svg: (Rejects t2)
    then show ?thesis using assms png
      by (auto simp: handleBatchExport_def export_stages_def and_then_def add_stage_def
          failure_def rejects_def rejection_def set_progress_def zip_file_def split: option.splits)
  next
    case svg: (Resolves b2)
    show ?thesis
    proof (cases "has_art s")
      case art: True
      show ?thesis
      proof (cases "fetch_blob env")
        case ai: (Rejects t3)
        then show ?thesis using assms png svg art
          by (auto simp: handleBatchExport_def export_stages_def and_then_def add_stage_def
              failure_def rejects_def rejection_def set_progress_def zip_file_def split: option.splits)
      next
        case ai: (Resolves b3)
        then show ?thesis using assms png svg art
          by (auto simp: handleBatchExport_def export_stages_def and_then_def add_stage_def
              compress_stage_def entries_before_compress_def resolved_def Let_def
              failure_def rejects_def rejection_def set_progress_def zip_file_def
              split: option.splits outcome.splits if_splits)
      qed
    next
      case art: False
      then show ?thesis using assms png svg
        by (auto simp: handleBatchExport_def export_stages_def and_then_def add_stage_def
            compress_stage_def entries_before_compress_def resolved_def Let_def
            failure_def rejects_def rejection_def set_progress_def zip_file_def
            split: option.splits outcome.splits if_splits)
    qed
  qed
qed

theorem export_failure_aborts_witness:
  "download (handleBatchExport svg_fails mounted) = None
   \<and> errors (handleBatchExport svg_fails mounted) = [js ''Canvas is not ready'']
   \<and> map fst (zip_entries (handleBatchExport svg_fails mounted)) = [''standard-qr.png'']"
proof -
  have a: "qrValue mounted \<noteq> []" "styling mounted" by (simp_all add: mounted_def js_def)
  have b: "failure svg_fails mounted = Some (StageSvg, ErrorObject (js ''Canvas is not ready''))"
    by (simp add: failure_def svg_fails_def rejects_def rejection_def)
  have c: "map fst (zip_entries (handleBatchExport svg_fails mounted)) = [''standard-qr.png'']"
    by (simp add: handleBatchExport_def export_stages_def and_then_def add_stage_def svg_fails_def
        mounted_def js_def set_progress_def zip_file_def)
  show ?thesis
    using export_failure_aborts [OF a b] c by (simp add: catch_message_def)
qed

text \<open>
  The surfaced message does not tell the stage: the same rejection in the first and in
  the second stage leaves the same message, and a second stage that rejects with a value
  that is no \<open>Error\<close> leaves the fixed text about the ZIP file.
\<close>

theorem export_error_hides_stage:
  "map_option fst (failure png_fails mounted) = Some StagePng
   \<and> map_option fst (failure svg_fails mounted) = Some StageSvg
   \<and> errors (handleBatchExport png_fails mounted) = errors (handleBatchExport svg_fails mounted)
   \<and> map_option fst (failure svg_rejects_value mounted) = Some StageSvg
   \<and> errors (handleBatchExport svg_rejects_value mounted) = [js ''Failed to create ZIP file.'']"
  by (simp add: failure_def png_fails_def svg_fails_def svg_rejects_value_def rejects_def
      rejection_def handleBatchExport_def export_stages_def and_then_def add_stage_def
      mounted_def js_def set_progress_def catch_message_def)

section \<open>Code units\<close>

lemma unat_unit_of: "n < 65536 \<Longrightarrow> unat (unit_of n) = n"
  by (simp add: unit_of_def unat_of_nat)

lemma unit_of_unat: "unit_of (unat c) = c"
  by (simp add: unit_of_def)

lemma unat_lt16: "unat (c :: code_unit) < 65536"
  using unsigned_less [of c, where 'a = nat] by simp

section \<open>Base64: \<open>atob\<close> undoes \<open>btoa\<close>\<close>

lemma base64_index_char: "n < 64 \<Longrightarrow> base64_index (base64_char n) = Some n"
  by (auto simp: base64_index_def base64_char_def word_le_nat_alt word_unat_eq_iff unat_unit_of)

lemma base64_char_not_equals: "base64_char n \<noteq> equals_sign"
  by (auto simp: base64_char_def equals_sign_def word_unat_eq_iff unat_unit_of)

lemma base64_char_not_ws: "\<not> ascii_whitespace (base64_char n)"
  by (auto simp: base64_char_def ascii_whitespace_def word_unat_eq_iff unat_unit_of)

lemma base64_encode_body:
  "base64_encode bs = map base64_char (base64_body bs) @ base64_padding bs"
  by (induction bs rule: base64_encode.induct) simp_all

lemma base64_padding_cases:
  "(base64_padding bs = [] \<and> length (base64_body bs) mod 4 = 0)
   \<or> (base64_padding bs = [equals_sign] \<and> length (base64_body bs) mod 4 = 3)
   \<or> (base64_padding bs = [equals_sign, equals_sign] \<and> length (base64_body bs) mod 4 = 2)"
  by (induction bs rule: base64_body.induct) simp_all

lemma sextet_bounds:
  assumes "a < 256" "b < 256" "c < (256::nat)"
  shows "a div 4 < 64" "(a mod 4) * 16 + b div 16 < 64" "(b mod 16) * 4 + c div 64 < 64"
    "c mod 64 < 64" "(a mod 4) * 16 < 64" "(b mod 16) * 4 < 64"
  using assms by arith+

lemma base64_body_bound: "octets bs \<Longrightarrow> list_all (\<lambda>n. n < 64) (base64_body bs)"
proof (induction bs rule: base64_body.induct)
  case (4 a b c rest)
  then show ?case using sextet_bounds [of a b c] by (simp add: octets_def)
next
  case (3 a b)
  then show ?case using sextet_bounds [of a b 0] by (simp add: octets_def)
next
  case (2 a)
  then show ?case using sextet_bounds [of a 0 0] by (simp add: octets_def)
qed simp

lemma div_mod_pack:
  fixes k x n :: nat
  assumes "x < n"
  shows "(k * n + x) div n = k" and "(k * n + x) mod n = x"
  using assms by simp_all

lemma sextet_decode1:
  fixes a b :: nat
  assumes "b < 256"
  shows "a div 4 * 4 + ((a mod 4) * 16 + b div 16) div 16 = a"
proof -
  have "b div 16 < 16" using assms by simp
  then show ?thesis by (simp add: div_mod_pack)
qed

lemma sextet_decode2:
  fixes a b c :: nat
  assumes "b < 256" "c < 256"
  shows "(((a mod 4) * 16 + b div 16) mod 16) * 16 + ((b mod 16) * 4 + c div 64) div 4 = b"
proof -
  have "b div 16 < 16" and "c div 64 < 4" using assms by simp_all
  then show ?thesis by (simp add: div_mod_pack)
qed

lemma sextet_decode3:
  fixes b c :: nat
  assumes "c < 256"
  shows "(((b mod 16) * 4 + c div 64) mod 4) * 64 + c mod 64 = c"
proof -
  have "c div 64 < 4" using assms by simp
  then show ?thesis by (simp add: div_mod_pack)
qed

lemma base64_decode_body: "octets bs \<Longrightarrow> base64_decode (base64_body bs) = bs"
proof (induction bs rule: base64_body.induct)
  case (4 a b c rest)
  then show ?case
    using sextet_decode1 [of b a] sextet_decode2 [of b c a] sextet_decode3 [of c b]
    by (simp add: octets_def)
next
  case (3 a b)
  then show ?case
    using sextet_decode1 [of b a] sextet_decode2 [of b 0 a] by (simp add: octets_def)
next
  case (2 a)
  then show ?case using sextet_decode1 [of 0 a] by (simp add: octets_def)
qed simp

lemma sextets_chars: "list_all (\<lambda>n. n < 64) ns \<Longrightarrow> sextets (map base64_char ns) = Some ns"
  by (induction ns) (simp_all add: base64_index_char)

lemma strip_padding_plain:
  assumes "ns = [] \<or> last ns \<noteq> equals_sign"
  shows "strip_padding ns = ns"
    and "length ns mod 4 = 3 \<Longrightarrow> strip_padding (ns @ [equals_sign]) = ns"
    and "strip_padding (ns @ [equals_sign, equals_sign]) = (if length ns mod 4 = 2 then ns else ns @ [equals_sign, equals_sign])"
proof -
  show "strip_padding ns = ns" using assms by (auto simp: strip_padding_def)
  show "strip_padding (ns @ [equals_sign]) = ns" if "length ns mod 4 = 3"
  proof -
    from that have "ns \<noteq> []" by auto
    moreover have "Suc (length ns) mod 4 = 0" using that by (simp add: mod_Suc)
    ultimately show ?thesis using assms by (simp add: strip_padding_def)
  qed
  show "strip_padding (ns @ [equals_sign, equals_sign]) = (if length ns mod 4 = 2 then ns else ns @ [equals_sign, equals_sign])"
  proof -
    have "butlast (ns @ [equals_sign, equals_sign]) = ns @ [equals_sign]"
      by (simp add: butlast_append)
    moreover have "Suc (Suc (length ns)) mod 4 = 0 \<longleftrightarrow> length ns mod 4 = 2"
      by (simp add: mod_Suc)
    ultimately show ?thesis by (simp add: strip_padding_def)
  qed
qed

lemma last_base64_chars: "ns = [] \<or> last (map base64_char ns) \<noteq> equals_sign"
  by (cases ns rule: rev_cases) (simp_all add: base64_char_not_equals)

lemma filter_ws_encoded:
  "filter (\<lambda>c. \<not> ascii_whitespace c) (base64_encode bs) = base64_encode bs"
proof -
  have a: "filter (\<lambda>c. \<not> ascii_whitespace c) (map base64_char ns) = map base64_char ns" for ns
    by (induction ns) (simp_all add: base64_char_not_ws)
  have b: "filter (\<lambda>c. \<not> ascii_whitespace c) (base64_padding bs) = base64_padding bs"
    by (induction bs rule: base64_padding.induct) (simp_all add: ascii_whitespace_def equals_sign_def)
  show ?thesis by (simp add: base64_encode_body a b)
qed

lemma atob_base64_encode:
  assumes "octets bs"
  shows "atob (base64_encode bs) = Inr (map unit_of bs)"
proof -
  let ?cs = "map base64_char (base64_body bs)"
  have l: "?cs = [] \<or> last ?cs \<noteq> equals_sign"
    using last_base64_chars [of "base64_body bs"] by auto
  have "strip_padding (base64_encode bs) = ?cs \<and> length ?cs mod 4 \<noteq> 1"
    using base64_padding_cases [of bs] strip_padding_plain [OF l]
    by (auto simp: base64_encode_body)
  then show ?thesis
    using sextets_chars [OF base64_body_bound [OF assms]] base64_decode_body [OF assms]
    by (simp add: atob_def filter_ws_encoded)
qed

lemma btoa_octets:
  assumes "octets bs"
  shows "btoa (map unit_of bs) = Inr (base64_encode bs)"
proof -
  have "map unat (map unit_of bs) = bs"
    using assms by (induction bs) (simp_all add: octets_def unat_unit_of)
  moreover have "list_all (\<lambda>c. c \<le> 0xFF) (map unit_of bs)"
    using assms by (induction bs) (simp_all add: octets_def unat_unit_of word_le_nat_alt)
  ultimately show ?thesis by (simp add: btoa_def)
qed

section \<open>UTF-8 through the URI built-ins\<close>

lemma hex_value_upper: "n < 16 \<Longrightarrow> hex_value (hex_upper n) = Some n"
  by (auto simp: hex_value_def hex_upper_def word_le_nat_alt unat_unit_of)

lemma hex_value_lower: "n < 16 \<Longrightarrow> hex_value (hex_lower n) = Some n"
  by (auto simp: hex_value_def hex_lower_def word_le_nat_alt unat_unit_of)

lemma hex_upper_not_u: "n < 16 \<Longrightarrow> hex_upper n \<noteq> 0x75"
  by (auto simp: hex_upper_def word_unat_eq_iff unat_unit_of)

lemma hex_digits_2_upper:
  assumes "b < 256"
  shows "hex_digits 2 [hex_upper (b div 16), hex_upper (b mod 16)] = Some b"
proof -
  have "b div 16 < 16" using assms by simp
  then show ?thesis by (simp add: hex_digits_def hex_value_upper)
qed

lemma unescape_percent_octet:
  assumes "b < 256"
  shows "unescape (percent_octet b @ rest) = unit_of b # unescape rest"
proof -
  have "b div 16 < 16" using assms by simp
  then show ?thesis
    using hex_digits_2_upper [OF assms] hex_upper_not_u [of "b div 16"]
    by (simp add: percent_octet_def)
qed

lemma unescape_percent_octets:
  "octets bs \<Longrightarrow> unescape (concat (map percent_octet bs) @ rest) = map unit_of bs @ unescape rest"
  by (induction bs) (simp_all add: octets_def unescape_percent_octet)

lemma div_bounds:
  fixes cp :: nat
  shows "cp < 0x800 \<Longrightarrow> cp div 0x40 < 0x20"
    and "cp < 0x10000 \<Longrightarrow> cp div 0x1000 < 0x10"
    and "cp < 0x110000 \<Longrightarrow> cp div 0x40000 < 5"
    and "0x80 \<le> cp \<Longrightarrow> 2 \<le> cp div 0x40"
    and "0x800 \<le> cp \<Longrightarrow> 0x20 \<le> cp div 0x40"
    and "0x10000 \<le> cp \<Longrightarrow> 0x10 \<le> cp div 0x1000"
  by arith+

lemma recompose2: "(cp::nat) div 0x40 * 0x40 + cp mod 0x40 = cp"
  by simp

lemma recompose3: "(cp::nat) div 0x1000 * 0x1000 + (cp div 0x40) mod 0x40 * 0x40 + cp mod 0x40 = cp"
proof -
  have "cp mod 0x1000 = 0x40 * ((cp div 0x40) mod 0x40) + cp mod 0x40"
    using mod_mult2_eq [of cp "0x40" "0x40"] by simp
  moreover have "cp div 0x1000 * 0x1000 + cp mod 0x1000 = cp" by simp
  ultimately show ?thesis by simp
qed

lemma recompose4:
  "(cp::nat) div 0x40000 * 0x40000 + (cp div 0x1000) mod 0x40 * 0x1000
     + (cp div 0x40) mod 0x40 * 0x40 + cp mod 0x40 = cp"
proof -
  have a: "cp mod 0x1000 = 0x40 * ((cp div 0x40) mod 0x40) + cp mod 0x40"
    using mod_mult2_eq [of cp "0x40" "0x40"] by simp
  have b: "cp mod 0x40000 = 0x1000 * ((cp div 0x1000) mod 0x40) + cp mod 0x1000"
    using mod_mult2_eq [of cp "0x1000" "0x40"] by simp
  have "cp div 0x40000 * 0x40000 + cp mod 0x40000 = cp" by simp
  with a b show ?thesis by simp
qed

lemma mod_lt_128: "(x::nat) mod 0x40 < 0x80"
  using mod_less_divisor [of "0x40" x] by linarith

lemma mod_lt_192: "0x80 + (x::nat) mod 0x40 < 0xC0"
  using mod_less_divisor [of "0x40" x] by linarith

lemma utf8_octets_2:
  assumes "0x80 \<le> cp" "cp < 0x800"
  shows "\<exists>b0 b1. utf8_octets cp = [b0, b1] \<and> leading_ones b0 = 2 \<and> octets [b0, b1]
           \<and> utf8_code_point [b0, b1] = Some cp \<and> 0x80 \<le> b0 \<and> 0x80 \<le> b1"
proof -
  let ?b0 = "0xC0 + cp div 0x40" and ?b1 = "0x80 + cp mod 0x40"
  have d: "cp div 0x40 < 0x20" using assms div_bounds by auto
  have o: "utf8_octets cp = [?b0, ?b1]" using assms by (simp add: utf8_octets_def)
  have l: "leading_ones ?b0 = 2" using d by (simp add: leading_ones_def)
  have b: "octets [?b0, ?b1]" using d mod_lt_128 [of cp] by (simp add: octets_def)
  have v: "utf8_code_point [?b0, ?b1] = Some cp"
    using assms(1) mod_lt_192 [of cp] recompose2 [of cp] by (simp add: is_continuation_def)
  show ?thesis using o l b v by simp
qed

lemma utf8_octets_3:
  assumes "0x800 \<le> cp" "cp < 0x10000" "\<not> (0xD800 \<le> cp \<and> cp < 0xE000)"
  shows "\<exists>b0 b1 b2. utf8_octets cp = [b0, b1, b2] \<and> leading_ones b0 = 3 \<and> octets [b0, b1, b2]
           \<and> utf8_code_point [b0, b1, b2] = Some cp \<and> 0x80 \<le> b0 \<and> 0x80 \<le> b1 \<and> 0x80 \<le> b2"
proof -
  let ?b0 = "0xE0 + cp div 0x1000" and ?b1 = "0x80 + (cp div 0x40) mod 0x40"
    and ?b2 = "0x80 + cp mod 0x40"
  have d: "cp div 0x1000 < 0x10" using assms div_bounds by auto
  have o: "utf8_octets cp = [?b0, ?b1, ?b2]" using assms by (simp add: utf8_octets_def)
  have l: "leading_ones ?b0 = 3" using d by (simp add: leading_ones_def)
  have b: "octets [?b0, ?b1, ?b2]"
    using d mod_lt_128 [of cp] mod_lt_128 [of "cp div 0x40"] by (simp add: octets_def)
  have v: "utf8_code_point [?b0, ?b1, ?b2] = Some cp"
    using assms mod_lt_192 [of cp] mod_lt_192 [of "cp div 0x40"] recompose3 [of cp]
    by (simp add: is_continuation_def)
  show ?thesis using o l b v by simp
qed

lemma utf8_octets_4:
  assumes "0x10000 \<le> cp" "cp < 0x110000"
  shows "\<exists>b0 b1 b2 b3. utf8_octets cp = [b0, b1, b2, b3] \<and> leading_ones b0 = 4
           \<and> octets [b0, b1, b2, b3] \<and> utf8_code_point [b0, b1, b2, b3] = Some cp
           \<and> 0x80 \<le> b0 \<and> 0x80 \<le> b1 \<and> 0x80 \<le> b2 \<and> 0x80 \<le> b3"
proof -
  let ?b0 = "0xF0 + cp div 0x40000" and ?b1 = "0x80 + (cp div 0x1000) mod 0x40"
    and ?b2 = "0x80 + (cp div 0x40) mod 0x40" and ?b3 = "0x80 + cp mod 0x40"
  have d: "cp div 0x40000 < 5" using assms div_bounds by auto
  have o: "utf8_octets cp = [?b0, ?b1, ?b2, ?b3]" using assms by (simp add: utf8_octets_def)
  have l: "leading_ones ?b0 = 4" using d by (simp add: leading_ones_def)
  have b: "octets [?b0, ?b1, ?b2, ?b3]"
    using d mod_lt_128 [of cp] mod_lt_128 [of "cp div 0x40"] mod_lt_128 [of "cp div 0x1000"]
    by (simp add: octets_def)
  have v: "utf8_code_point [?b0, ?b1, ?b2, ?b3] = Some cp"
    using assms mod_lt_192 [of cp] mod_lt_192 [of "cp div 0x40"] mod_lt_192 [of "cp div 0x1000"]
      recompose4 [of cp]
    by (simp add: is_continuation_def)
  show ?thesis using o l b v by simp
qed

text \<open>The octets of a scalar value above ASCII: a lead octet that announces their number.\<close>

lemma utf8_octets_multi:
  assumes "scalar cp" "0x80 \<le> cp"
  shows "\<exists>b0 bs. utf8_octets cp = b0 # bs \<and> leading_ones b0 = Suc (length bs)
           \<and> 1 \<le> length bs \<and> length bs \<le> 3 \<and> octets (b0 # bs)
           \<and> utf8_code_point (b0 # bs) = Some cp \<and> list_all (\<lambda>b. 0x80 \<le> b) (b0 # bs)"
proof -
  consider "cp < 0x800" | "0x800 \<le> cp" "cp < 0x10000" | "0x10000 \<le> cp" by linarith
  then show ?thesis
  proof cases
    case 1
    then show ?thesis using utf8_octets_2 [of cp] assms by (auto simp: octets_def)
  next
    case 2
    then show ?thesis using utf8_octets_3 [of cp] assms by (auto simp: octets_def scalar_def)
  next
    case 3
    then show ?thesis using utf8_octets_4 [of cp] assms by (auto simp: octets_def scalar_def)
  qed
qed

lemma utf8_octets_bound: "scalar cp \<Longrightarrow> octets (utf8_octets cp)"
  using utf8_octets_multi [of cp]
  by (cases "0x80 \<le> cp") (auto simp: utf8_octets_def octets_def)

lemma surrogate_unat:
  "is_lead c \<longleftrightarrow> 0xD800 \<le> unat c \<and> unat c \<le> 0xDBFF"
  "is_trail c \<longleftrightarrow> 0xDC00 \<le> unat c \<and> unat c \<le> 0xDFFF"
  by (simp_all add: is_lead_def is_trail_def word_le_nat_alt)

lemma scalar_unit:
  assumes "\<not> is_lead c" "\<not> is_trail c"
  shows "scalar (unat c)" and "utf16_encode (unat c) = [c]"
  using assms unat_lt16 [of c]
  by (auto simp: scalar_def surrogate_unat utf16_encode_def unit_of_unat)

lemma pair_div_mod:
  fixes h l :: nat
  assumes "l < 0x400"
  shows "(h * 0x400 + l) div 0x400 = h" and "(h * 0x400 + l) mod 0x400 = l"
  using assms by simp_all

lemma scalar_pair:
  assumes "is_lead hi" "is_trail lo"
  shows "scalar (pair_code_point hi lo)" and "0x10000 \<le> pair_code_point hi lo"
    and "utf16_encode (pair_code_point hi lo) = [hi, lo]"
proof -
  let ?h = "unat hi - 0xD800" and ?l = "unat lo - 0xDC00"
  have h: "?h < 0x400" "0xD800 + ?h = unat hi" and l: "?l < 0x400" "0xDC00 + ?l = unat lo"
    using assms by (auto simp: surrogate_unat)
  have p: "pair_code_point hi lo = ?h * 0x400 + ?l + 0x10000"
    by (simp add: pair_code_point_def)
  have b: "?h * 0x400 + ?l < 0x100000"
  proof -
    have "?h * 0x400 \<le> 0x3FF * 0x400" using h(1) by simp
    then show ?thesis using l(1) by linarith
  qed
  show "scalar (pair_code_point hi lo)" using b by (simp add: p scalar_def)
  show "0x10000 \<le> pair_code_point hi lo" by (simp add: p)
  show "utf16_encode (pair_code_point hi lo) = [hi, lo]"
    using pair_div_mod [OF l(1), of ?h] h(2) l(2)
    by (simp add: p utf16_encode_def unit_of_unat)
qed

lemma uri_unescaped_ascii:
  assumes "uri_unescaped c"
  shows "unat c < 0x80" and "c \<noteq> pct" and "\<not> is_lead c" and "\<not> is_trail c"
  using assms
  by (auto simp: uri_unescaped_def is_alpha_def is_digit_def js_def pct_def surrogate_unat
        word_le_nat_alt word_unat_eq_iff)

lemma unescape_plain: "c \<noteq> pct \<Longrightarrow> unescape (c # cs) = c # unescape cs"
  by simp

lemma encodeURIComponent_well_formed:
  "well_formed s \<Longrightarrow> \<exists>t. encodeURIComponent s = Inr t \<and> unescape t = map unit_of (utf8 s)"
proof (induction s rule: well_formed.induct)
  case 1
  show ?case by simp
next
  case (2 c cs)
  show ?case
  proof (cases "uri_unescaped c")
    case True
    note u = uri_unescaped_ascii [OF True]
    from 2 u obtain t where t: "encodeURIComponent cs = Inr t" "unescape t = map unit_of (utf8 cs)"
      by auto
    have "utf8_octets (unat c) = [unat c]" using u(1) by (simp add: utf8_octets_def)
    then show ?thesis
      using True t u by (simp add: prepend_def unit_of_unat)
  next
    case False
    show ?thesis
    proof (cases "is_lead c")
      case lead: True
      with 2(3) obtain d ds where cs: "cs = d # ds" and d: "is_trail d" and w: "well_formed ds"
        by (auto split: list.splits)
      from 2(1) [OF lead cs] d w obtain t where
        t: "encodeURIComponent ds = Inr t" "unescape t = map unit_of (utf8 ds)"
        by auto
      have nt: "\<not> is_trail c" using lead by (auto simp: surrogate_unat)
      have o: "octets (utf8_octets (pair_code_point c d))"
        using scalar_pair(1) [OF lead d] by (rule utf8_octets_bound)
      show ?thesis
        using False lead nt cs d t unescape_percent_octets [OF o]
        by (simp add: prepend_def)
    next
      case nolead: False
      with 2(3) have nt: "\<not> is_trail c" and w: "well_formed cs" by auto
      from 2(2) [OF nolead] nt w obtain t where
        t: "encodeURIComponent cs = Inr t" "unescape t = map unit_of (utf8 cs)"
        by auto
      have o: "octets (utf8_octets (unat c))"
        using scalar_unit(1) [OF nolead nt] by (rule utf8_octets_bound)
      show ?thesis
        using False nolead nt t unescape_percent_octets [OF o]
        by (simp add: prepend_def)
    qed
  qed
qed

lemma octets_utf8: "well_formed s \<Longrightarrow> octets (utf8 s)"
proof (induction s rule: well_formed.induct)
  case 1
  show ?case by (simp add: octets_def)
next
  case (2 c cs)
  show ?case
  proof (cases "is_lead c")
    case True
    with 2(3) obtain d ds where cs: "cs = d # ds" and d: "is_trail d" and w: "well_formed ds"
      by (auto split: list.splits)
    have "octets (utf8_octets (pair_code_point c d))"
      using scalar_pair(1) [OF True d] by (rule utf8_octets_bound)
    then show ?thesis using 2(1) [OF True cs] True cs d w by (simp add: octets_def)
  next
    case False
    with 2(3) have nt: "\<not> is_trail c" and w: "well_formed cs" by auto
    have "octets (utf8_octets (unat c))"
      using scalar_unit(1) [OF False nt] by (rule utf8_octets_bound)
    then show ?thesis using 2(2) [OF False] False nt w by (simp add: octets_def)
  qed
qed

lemma escape_append: "escape (xs @ ys) = escape xs @ escape ys"
  by (simp add: escape_def)

lemma escape_unit_high:
  assumes "0x80 \<le> b" "b < 256"
  shows "escape_unit (unit_of b) = percent_octet b"
  using assms
  by (auto simp: escape_unit_def escape_unescaped_def is_alpha_def is_digit_def js_def
        word_le_nat_alt word_unat_eq_iff unat_unit_of)

lemma escape_octets_high:
  "octets bs \<Longrightarrow> list_all (\<lambda>b. 0x80 \<le> b) bs
     \<Longrightarrow> escape (map unit_of bs) = concat (map percent_octet bs)"
  by (induction bs) (simp_all add: escape_def octets_def escape_unit_high)

lemma escape_unit_low:
  assumes "b < 0x80"
  shows "(escape_unit (unit_of b) = [unit_of b] \<and> unit_of b \<noteq> pct)
         \<or> escape_unit (unit_of b) = percent_octet b"
  using assms
  by (auto simp: escape_unit_def escape_unescaped_def is_alpha_def is_digit_def js_def pct_def
        word_le_nat_alt word_unat_eq_iff unat_unit_of)

lemma decode_plain: "c \<noteq> pct \<Longrightarrow> decodeURIComponent (c # cs) = prepend [c] (decodeURIComponent cs)"
  by simp

lemma decode_percent_ascii:
  assumes "b < 0x80"
  shows "decodeURIComponent (percent_octet b @ R) = prepend [unit_of b] (decodeURIComponent R)"
proof -
  have "hex_digits 2 [hex_upper (b div 16), hex_upper (b mod 16)] = Some b"
    using assms by (intro hex_digits_2_upper) simp
  then show ?thesis using assms by (simp add: percent_octet_def leading_ones_def)
qed

lemma continuation_octets_percent:
  "octets bs \<Longrightarrow> continuation_octets (length bs) (concat (map percent_octet bs) @ R) = Some bs"
proof (induction bs)
  case Nil
  show ?case by simp
next
  case (Cons b bs)
  then have b: "b < 256" and o: "octets bs" by (simp_all add: octets_def)
  show ?case
    using Cons.IH [OF o] hex_digits_2_upper [OF b]
    by (simp add: percent_octet_def)
qed

lemma length_percent_octets: "length (concat (map percent_octet bs)) = 3 * length bs"
  by (induction bs) (simp_all add: percent_octet_def)

lemma decode_percent_multi:
  assumes "octets (b0 # bs)" and "leading_ones b0 = Suc (length bs)"
    and "1 \<le> length bs" and "length bs \<le> 3" and "utf8_code_point (b0 # bs) = Some v"
  shows "decodeURIComponent (concat (map percent_octet (b0 # bs)) @ R)
           = prepend (utf16_encode v) (decodeURIComponent R)"
proof -
  from assms(1) have b: "b0 < 256" and o: "octets bs" by (simp_all add: octets_def)
  let ?cs = "[hex_upper (b0 div 16), hex_upper (b0 mod 16)] @ concat (map percent_octet bs) @ R"
  have h: "hex_digits 2 (take 2 ?cs) = Some b0" using hex_digits_2_upper [OF b] by simp
  have c: "continuation_octets (leading_ones b0 - 1) (drop 2 ?cs) = Some bs"
    using continuation_octets_percent [OF o, of R] assms(2) by simp
  have d: "drop (2 + 3 * (leading_ones b0 - 1)) ?cs = R"
    using assms(2) length_percent_octets [of bs] by simp
  have n: "leading_ones b0 \<noteq> 0" "\<not> (leading_ones b0 = 1 \<or> 4 < leading_ones b0)"
    using assms(2,3,4) by auto
  have "decodeURIComponent (pct # ?cs) = prepend (utf16_encode v) (decodeURIComponent R)"
    by (simp only: decodeURIComponent.simps h c d n assms(5) option.case if_False if_True
          simp_thms)
  then show ?thesis by (simp add: percent_octet_def)
qed

lemma decode_escape_octets:
  assumes "scalar cp"
  shows "decodeURIComponent (escape (map unit_of (utf8_octets cp)) @ R)
           = prepend (utf16_encode cp) (decodeURIComponent R)"
proof (cases "cp < 0x80")
  case True
  have o: "utf8_octets cp = [cp]" using True by (simp add: utf8_octets_def)
  have u: "utf16_encode cp = [unit_of cp]" using True by (simp add: utf16_encode_def)
  show ?thesis
    using escape_unit_low [OF True] decode_percent_ascii [OF True, of R]
    by (auto simp: o u escape_def)
next
  case False
  then obtain b0 bs where m: "utf8_octets cp = b0 # bs" "leading_ones b0 = Suc (length bs)"
      "1 \<le> length bs" "length bs \<le> 3" "octets (b0 # bs)" "utf8_code_point (b0 # bs) = Some cp"
      "list_all (\<lambda>b. 0x80 \<le> b) (b0 # bs)"
    using utf8_octets_multi [OF assms] by auto
  show ?thesis
    using escape_octets_high [OF m(5) m(7)] decode_percent_multi [OF m(5) m(2) m(3) m(4) m(6), of R]
    by (simp only: m(1))
qed

lemma decode_escape_utf8:
  "well_formed s \<Longrightarrow> decodeURIComponent (escape (map unit_of (utf8 s))) = Inr s"
proof (induction s rule: well_formed.induct)
  case 1
  show ?case by (simp add: escape_def)
next
  case (2 c cs)
  show ?case
  proof (cases "is_lead c")
    case True
    with 2(3) obtain d ds where cs: "cs = d # ds" and d: "is_trail d" and w: "well_formed ds"
      by (auto split: list.splits)
    have ih: "decodeURIComponent (escape (map unit_of (utf8 ds))) = Inr ds"
      using 2(1) [OF True cs] d w by simp
    show ?thesis
      using decode_escape_octets [OF scalar_pair(1) [OF True d], of "escape (map unit_of (utf8 ds))"]
        scalar_pair(3) [OF True d] ih True
      by (simp add: cs escape_append prepend_def)
  next
    case False
    with 2(3) have nt: "\<not> is_trail c" and w: "well_formed cs" by auto
    have ih: "decodeURIComponent (escape (map unit_of (utf8 cs))) = Inr cs"
      using 2(2) [OF False] nt w by simp
    show ?thesis
      using decode_escape_octets [OF scalar_unit(1) [OF False nt], of "escape (map unit_of (utf8 cs))"]
        scalar_unit(2) [OF False nt] ih False
      by (simp add: escape_append prepend_def)
  qed
qed

text \<open>The two transforms undo each other on text without unpaired surrogates.\<close>

lemma base64_round_trip:
  assumes "well_formed s"
  shows "\<exists>t. utf8ToBase64 s = Inr t \<and> base64ToUtf8 t = s \<and> (s \<noteq> [] \<longrightarrow> t \<noteq> [])"
proof -
  obtain e where e: "encodeURIComponent s = Inr e" "unescape e = map unit_of (utf8 s)"
    using encodeURIComponent_well_formed [OF assms] by auto
  have o: "octets (utf8 s)" using assms by (rule octets_utf8)
  have b: "btoa (unescape e) = Inr (base64_encode (utf8 s))"
    using btoa_octets [OF o] e(2) by simp
  have a: "atob (base64_encode (utf8 s)) = Inr (map unit_of (utf8 s))"
    using o by (rule atob_base64_encode)
  have n: "base64_encode (utf8 s) \<noteq> []" if "s \<noteq> []"
  proof
    assume "base64_encode (utf8 s) = []"
    with a have "map unit_of (utf8 s) = []" by (simp add: atob_def strip_padding_def)
    then have "decodeURIComponent (escape (map unit_of (utf8 s))) = Inr []" by (simp add: escape_def)
    with decode_escape_utf8 [OF assms] that show False by simp
  qed
  show ?thesis
    using e(1) b a decode_escape_utf8 [OF assms] n
    by (simp add: utf8ToBase64_def base64ToUtf8_def)
qed

section \<open>JSON: the fuel of \<open>JSON_parse\<close> suffices\<close>

lemma length_skip_ws: "length (skip_ws s) \<le> length s"
  by (simp add: skip_ws_def length_dropWhile_le)

lemma parse_string_chars_shorter:
  "parse_string_chars cs = Some (x, r) \<Longrightarrow> length r < length cs"
proof (induction cs arbitrary: x rule: parse_string_chars.induct)
  case 1
  then show ?case by simp
next
  case (2 c cs)
  show ?case
  proof (cases "c = dquote")
    case True
    with 2(4) show ?thesis by simp
  next
    case nq: False
    show ?thesis
    proof (cases "c = backslash")
      case bs: True
      then obtain e rest where cs: "cs = e # rest" using 2(4) nq by (cases cs) auto
      show ?thesis
      proof (cases "e = 0x75")
        case u: True
        then obtain n where n: "hex_digits 4 (take 4 rest) = Some n"
          using 2(4) nq bs cs by (auto split: option.splits)
        then obtain x' where "parse_string_chars (drop 4 rest) = Some (x', r)"
          using 2(4) nq bs cs u by auto
        then have "length r < length (drop 4 rest)"
          using 2(1) [OF nq bs cs u n] by simp
        then show ?thesis by (simp add: cs)
      next
        case nu: False
        then obtain y where y: "simple_escape e = Some y"
          using 2(4) nq bs cs by (auto split: option.splits)
        then obtain x' where "parse_string_chars rest = Some (x', r)"
          using 2(4) nq bs cs nu by auto
        then have "length r < length rest"
          using 2(2) [OF nq bs cs nu y] by simp
        then show ?thesis by (simp add: cs)
      qed
    next
      case nb: False
      then have lo: "\<not> c < 0x20" using 2(4) nq by (auto split: if_splits)
      then obtain x' where "parse_string_chars cs = Some (x', r)"
        using 2(4) nq nb by auto
      then have "length r < length cs" using 2(3) [OF nq nb lo] by simp
      then show ?thesis by simp
    qed
  qed
qed

lemma number_digits_shorter: "number_digits s = Some (x, r) \<Longrightarrow> length r \<le> length s"
  by (auto simp: number_digits_def length_dropWhile_le split: if_splits)

lemma parse_number_shorter: "parse_number s = Some (x, r) \<Longrightarrow> length r < length s"
proof -
  assume a: "parse_number s = Some (x, r)"
  obtain sg s1 where sg: "number_sign s = (sg, s1)" by (cases "number_sign s")
  have l1: "length s1 \<le> length s" using sg by (auto simp: number_sign_def split: list.splits if_splits)
  obtain i s2 where i: "number_int s1 = Some (i, s2)"
    using a sg by (auto simp: parse_number_def split: option.splits)
  have l2: "length s2 < length s1"
    using i by (auto simp: number_int_def length_dropWhile_le less_Suc_eq_le split: list.splits if_splits)
  obtain f s3 where f: "number_frac s2 = Some (f, s3)"
    using a sg i by (auto simp: parse_number_def split: option.splits)
  have l3: "length s3 \<le> length s2"
    using f number_digits_shorter
    by (fastforce simp: number_frac_def split: list.splits if_splits)
  obtain e s4 where e: "number_exp s3 = Some (e, s4)"
    using a sg i f by (auto simp: parse_number_def split: option.splits)
  have l4: "length s4 \<le> length s3"
    using e number_digits_shorter
    by (fastforce simp: number_exp_def split: list.splits if_splits)
  have "r = s4" using a sg i f e by (simp add: parse_number_def)
  then show ?thesis using l1 l2 l3 l4 by simp
qed

lemma keyword_shorter: "w \<noteq> [] \<Longrightarrow> keyword w v s = Some (x, r) \<Longrightarrow> length r < length s"
  by (cases s) (auto simp: keyword_def split: if_splits)

text \<open>
  Fuel: a successful parse consumes at least one character, and any fuel from the number
  of consumed characters on gives the same result.
\<close>

lemma parse_fuel:
  "(\<forall>s v r. parse_value n s = Some (v, r)
       \<longrightarrow> length r < length s \<and> (\<forall>m. length s - length r \<le> m \<longrightarrow> parse_value m s = Some (v, r)))
   \<and> (\<forall>s vs r. parse_elements n s = Some (vs, r)
       \<longrightarrow> length r < length s \<and> (\<forall>m. length s - length r \<le> m \<longrightarrow> parse_elements m s = Some (vs, r)))
   \<and> (\<forall>s ms r. parse_members n s = Some (ms, r)
       \<longrightarrow> length r < length s \<and> (\<forall>m. length s - length r \<le> m \<longrightarrow> parse_members m s = Some (ms, r)))"
proof (induction n)
  case 0
  show ?case by simp
next
  case (Suc n)
  note IHv = Suc.IH [THEN conjunct1, rule_format]
  note IHe = Suc.IH [THEN conjunct2, THEN conjunct1, rule_format]
  note IHm = Suc.IH [THEN conjunct2, THEN conjunct2, rule_format]
  have V: "length r < length s \<and> (\<forall>m. length s - length r \<le> m \<longrightarrow> parse_value m s = Some (v, r))"
    if a: "parse_value (Suc n) s = Some (v, r)" for s v r
  proof -
    from a obtain c cs where s: "s = c # cs" by (cases s) auto
    consider (str) "c = dquote"
      | (arr) "c \<noteq> dquote" "c = 0x5B"
      | (obj) "c \<noteq> dquote" "c \<noteq> 0x5B" "c = 0x7B"
      | (other) "c \<noteq> dquote" "c \<noteq> 0x5B" "c \<noteq> 0x7B"
      by blast
    then show ?thesis
    proof cases
      case str
      then obtain x where x: "parse_string_chars cs = Some (x, r)" "v = JStr x"
        using a s by auto
      have l: "length r < length cs" using x(1) by (rule parse_string_chars_shorter)
      have "parse_value m s = Some (v, r)" if "length s - length r \<le> m" for m
      proof -
        from that l s obtain k where "m = Suc k" by (cases m) auto
        then show ?thesis using x str s by simp
      qed
      then show ?thesis using l s by auto
    next
      case arr
      then obtain d ds where d: "skip_ws cs = d # ds"
        using a s by (cases "skip_ws cs") auto
      have lw: "length (d # ds) \<le> length cs" using length_skip_ws [of cs] d by simp
      show ?thesis
      proof (cases "d = 0x5D")
        case True
        then have r: "r = ds" "v = JArr []" using a s arr d by auto
        have "parse_value m s = Some (v, r)" if "length s - length r \<le> m" for m
        proof -
          from that lw r s obtain k where "m = Suc k" by (cases m) auto
          then show ?thesis using r arr s d True by simp
        qed
        then show ?thesis using lw r s by auto
      next
        case False
        then obtain vs where e: "parse_elements n (d # ds) = Some (vs, r)" "v = JArr vs"
          using a s arr d by auto
        note ih = IHe [OF e(1)]
        have "parse_value m s = Some (v, r)" if "length s - length r \<le> m" for m
        proof -
          from that lw ih s obtain k where k: "m = Suc k" by (cases m) auto
          then have "length (d # ds) - length r \<le> k" using that lw s by simp
          then have "parse_elements k (d # ds) = Some (vs, r)" using ih by simp
          then show ?thesis using k e arr s d False by simp
        qed
        then show ?thesis using lw ih s by auto
      qed
    next
      case obj
      then obtain d ds where d: "skip_ws cs = d # ds"
        using a s by (cases "skip_ws cs") auto
      have lw: "length (d # ds) \<le> length cs" using length_skip_ws [of cs] d by simp
      show ?thesis
      proof (cases "d = 0x7D")
        case True
        then have r: "r = ds" "v = JObj []" using a s obj d by auto
        have "parse_value m s = Some (v, r)" if "length s - length r \<le> m" for m
        proof -
          from that lw r s obtain k where "m = Suc k" by (cases m) auto
          then show ?thesis using r obj s d True by simp
        qed
        then show ?thesis using lw r s by auto
      next
        case False
        then obtain ms where e: "parse_members n (d # ds) = Some (ms, r)" "v = make_object ms"
          using a s obj d by auto
        note ih = IHm [OF e(1)]
        have "parse_value m s = Some (v, r)" if "length s - length r \<le> m" for m
        proof -
          from that lw ih s obtain k where k: "m = Suc k" by (cases m) auto
          then have "length (d # ds) - length r \<le> k" using that lw s by simp
          then have "parse_members k (d # ds) = Some (ms, r)" using ih by simp
          then show ?thesis using k e obj s d False by simp
        qed
        then show ?thesis using lw ih s by auto
      qed
    next
      case other
      have l: "length r < length s"
      proof -
        consider "keyword (js ''true'') (JBool True) s = Some (v, r)"
          | "keyword (js ''false'') (JBool False) s = Some (v, r)"
          | "keyword (js ''null'') JNull s = Some (v, r)"
          | x where "parse_number s = Some (x, r)"
          using a s other by (auto split: if_splits)
        then show ?thesis
          using keyword_shorter [of _ _ s v r] parse_number_shorter [of s _ r]
          by cases (auto simp: js_def)
      qed
      have "parse_value m s = Some (v, r)" if "length s - length r \<le> m" for m
      proof -
        from that l obtain k where "m = Suc k" by (cases m) auto
        then show ?thesis using a s other by simp
      qed
      then show ?thesis using l by auto
    qed
  qed
  have E: "length r < length s \<and> (\<forall>m. length s - length r \<le> m \<longrightarrow> parse_elements m s = Some (vs, r))"
    if a: "parse_elements (Suc n) s = Some (vs, r)" for s vs r
  proof -
    from a obtain v r1 where pv: "parse_value n s = Some (v, r1)"
      by (auto split: option.splits)
    from a pv obtain c cs where c: "skip_ws r1 = c # cs" by (cases "skip_ws r1") auto
    note ihv = IHv [OF pv, THEN conjunct1]
    note ihv' = IHv [OF pv, THEN conjunct2, rule_format]
    have l1: "length (c # cs) \<le> length r1" using length_skip_ws [of r1] c by simp
    show ?thesis
    proof (cases "c = 0x2C")
      case True
      then obtain vs' where pe: "parse_elements n (skip_ws cs) = Some (vs', r)" "vs = v # vs'"
        using a pv c by auto
      note ihe = IHe [OF pe(1), THEN conjunct1]
      note ihe' = IHe [OF pe(1), THEN conjunct2, rule_format]
      have l2: "length r < length cs" using ihe length_skip_ws [of cs] by linarith
      have "parse_elements m s = Some (vs, r)" if "length s - length r \<le> m" for m
      proof -
        from that ihv l1 l2 obtain k where k: "m = Suc k" by (cases m) auto
        have "length s - length r1 \<le> k" using that k ihv l1 l2 by simp
        then have 1: "parse_value k s = Some (v, r1)" by (rule ihv')
        have "length (skip_ws cs) - length r \<le> k"
          using that k ihv l1 l2 length_skip_ws [of cs] by simp
        then have 2: "parse_elements k (skip_ws cs) = Some (vs', r)" by (rule ihe')
        show ?thesis using 1 2 c True pe(2) by (simp add: k)
      qed
      moreover have "length r < length s" using ihv l1 l2 by simp
      ultimately show ?thesis by blast
    next
      case False
      then have r: "c = 0x5D" "r = cs" "vs = [v]"
        using a pv c by (auto split: if_splits)
      have "parse_elements m s = Some (vs, r)" if "length s - length r \<le> m" for m
      proof -
        from that ihv l1 r obtain k where k: "m = Suc k" by (cases m) auto
        have "length s - length r1 \<le> k" using that k ihv l1 r by simp
        then have 1: "parse_value k s = Some (v, r1)" by (rule ihv')
        show ?thesis using 1 c False r by (simp add: k)
      qed
      moreover have "length r < length s" using ihv l1 r by simp
      ultimately show ?thesis by blast
    qed
  qed
  have M: "length r < length s \<and> (\<forall>m. length s - length r \<le> m \<longrightarrow> parse_members m s = Some (ms, r))"
    if a: "parse_members (Suc n) s = Some (ms, r)" for s ms r
  proof -
    from a obtain c cs where s: "s = c # cs" by (cases s) auto
    have q: "c = dquote" using a s by (auto split: if_splits)
    from a s q obtain key r0 where pk: "parse_string_chars cs = Some (key, r0)"
      by (auto split: option.splits)
    from a s q pk obtain d ds where d: "skip_ws r0 = d # ds" by (cases "skip_ws r0") auto
    have col: "d = 0x3A" using a s q pk d by (auto split: if_splits)
    from a s q pk d col obtain v r1 where pv: "parse_value n (skip_ws ds) = Some (v, r1)"
      by (auto split: option.splits)
    from a s q pk d col pv obtain e es where e: "skip_ws r1 = e # es" by (cases "skip_ws r1") auto
    note ihv = IHv [OF pv, THEN conjunct1]
    note ihv' = IHv [OF pv, THEN conjunct2, rule_format]
    have l0: "length r0 < length cs" using pk by (rule parse_string_chars_shorter)
    have l1: "length (d # ds) \<le> length r0" using length_skip_ws [of r0] d by simp
    have l2: "length (skip_ws ds) \<le> length ds" by (rule length_skip_ws)
    have l3: "length (e # es) \<le> length r1" using length_skip_ws [of r1] e by simp
    show ?thesis
    proof (cases "e = 0x2C")
      case True
      then obtain ms' where pm: "parse_members n (skip_ws es) = Some (ms', r)" "ms = (key, v) # ms'"
        using a s q pk d col pv e by auto
      note ihm = IHm [OF pm(1), THEN conjunct1]
      note ihm' = IHm [OF pm(1), THEN conjunct2, rule_format]
      have l4: "length r < length es" using ihm length_skip_ws [of es] by linarith
      have "parse_members m s = Some (ms, r)" if "length s - length r \<le> m" for m
      proof -
        from that s l0 l1 l2 l3 l4 ihv obtain k where k: "m = Suc k" by (cases m) auto
        have "length (skip_ws ds) - length r1 \<le> k" using that k s l0 l1 l2 l3 l4 ihv by simp
        then have 1: "parse_value k (skip_ws ds) = Some (v, r1)" by (rule ihv')
        have "length (skip_ws es) - length r \<le> k"
          using that k s l0 l1 l2 l3 l4 ihv length_skip_ws [of es] by simp
        then have 2: "parse_members k (skip_ws es) = Some (ms', r)" by (rule ihm')
        show ?thesis using 1 2 s q pk d col e True pm(2) by (simp add: k)
      qed
      moreover have "length r < length s" using s l0 l1 l2 l3 l4 ihv by simp
      ultimately show ?thesis by blast
    next
      case False
      then have r: "e = 0x7D" "r = es" "ms = [(key, v)]"
        using a s q pk d col pv e by (auto split: if_splits)
      have "parse_members m s = Some (ms, r)" if "length s - length r \<le> m" for m
      proof -
        from that s l0 l1 l2 l3 r ihv obtain k where k: "m = Suc k" by (cases m) auto
        have "length (skip_ws ds) - length r1 \<le> k" using that k s l0 l1 l2 l3 r ihv by simp
        then have 1: "parse_value k (skip_ws ds) = Some (v, r1)" by (rule ihv')
        show ?thesis using 1 s q pk d col e False r by (simp add: k)
      qed
      moreover have "length r < length s" using s l0 l1 l2 l3 r ihv by simp
      ultimately show ?thesis by blast
    qed
  qed
  show ?case using V E M by blast
qed

text \<open>
  The fuel \<open>JSON_parse\<close> starts with never runs out: whatever some fuel parses, the fuel of
  \<open>JSON_parse\<close> parses.
\<close>

lemma JSON_parse_fuel:
  assumes "parse_value n (skip_ws s) = Some (v, r)"
  shows "parse_value (Suc (length s)) (skip_ws s) = Some (v, r)"
proof -
  have "length (skip_ws s) - length r \<le> Suc (length s)"
    using length_skip_ws [of s] by linarith
  then show ?thesis
    using parse_fuel [of n, THEN conjunct1, rule_format, OF assms] by blast
qed

section \<open>JSON: strings\<close>

lemma recompose_hex4:
  fixes u :: nat
  shows "16 * (16 * (16 * (u div 0x1000) + (u div 0x100) mod 16) + (u div 16) mod 16) + u mod 16 = u"
proof -
  have a: "u mod 0x100 = 16 * ((u div 16) mod 16) + u mod 16"
    using mod_mult2_eq [of u 16 16] by simp
  have b: "u mod 0x1000 = 0x100 * ((u div 0x100) mod 16) + u mod 0x100"
    using mod_mult2_eq [of u "0x100" 16] by simp
  have "u div 0x1000 * 0x1000 + u mod 0x1000 = u" by simp
  with a b show ?thesis by simp
qed

lemma hex_digits_4_lower:
  assumes "u < 65536"
  shows "hex_digits 4 [hex_lower (u div 0x1000), hex_lower ((u div 0x100) mod 16),
                       hex_lower ((u div 16) mod 16), hex_lower (u mod 16)] = Some u"
proof -
  have "u div 0x1000 < 16" using assms by simp
  then show ?thesis
    using recompose_hex4 [of u] by (simp add: hex_digits_def hex_value_lower)
qed

lemma parse_unicode_escape:
  "parse_string_chars (unicode_escape c @ R) = map_option (apfst ((#) c)) (parse_string_chars R)"
  using hex_digits_4_lower [OF unat_lt16 [of c]]
  by (simp add: unicode_escape_def backslash_def dquote_def unit_of_unat)

lemma parse_plain:
  "c \<noteq> dquote \<Longrightarrow> c \<noteq> backslash \<Longrightarrow> \<not> c < 0x20
     \<Longrightarrow> parse_string_chars (c # R) = map_option (apfst ((#) c)) (parse_string_chars R)"
  by simp

lemma parse_json_escape:
  "parse_string_chars (json_escape c @ R) = map_option (apfst ((#) c)) (parse_string_chars R)"
proof (cases "c = 0x08 \<or> c = 0x09 \<or> c = 0x0A \<or> c = 0x0C \<or> c = 0x0D \<or> c = dquote \<or> c = backslash")
  case True
  then show ?thesis
    by (auto simp: json_escape_def simple_escape_def backslash_def dquote_def)
next
  case False
  then show ?thesis
    using parse_unicode_escape [of c R]
    by (auto simp: json_escape_def)
qed

lemma surrogate_plain:
  assumes "is_lead c \<or> is_trail c"
  shows "c \<noteq> dquote" "c \<noteq> backslash" "\<not> c < 0x20"
  using assms
  by (auto simp: surrogate_unat dquote_def backslash_def word_less_nat_alt)

lemma parse_quote_chars:
  "parse_string_chars (quote_chars s @ dquote # rest) = Some (s, rest)"
proof (induction s rule: quote_chars.induct)
  case 1
  show ?case by simp
next
  case (2 c cs)
  show ?case
  proof (cases "is_lead c")
    case lead: True
    show ?thesis
    proof (cases cs)
      case Nil
      then show ?thesis using lead parse_unicode_escape [of c "dquote # rest"] by simp
    next
      case (Cons d ds)
      show ?thesis
      proof (cases "is_trail d")
        case True
        then show ?thesis
          using 2(1) [OF lead Cons True] lead Cons surrogate_plain [of c] surrogate_plain [of d]
          by simp
      next
        case False
        then show ?thesis
          using 2(2) [OF lead Cons False] lead Cons
            parse_unicode_escape [of c "quote_chars cs @ dquote # rest"]
          by simp
      qed
    qed
  next
    case nolead: False
    show ?thesis
    proof (cases "is_trail c")
      case True
      then show ?thesis
        using 2(3) [OF nolead True] nolead
          parse_unicode_escape [of c "quote_chars cs @ dquote # rest"]
        by simp
    next
      case False
      then show ?thesis
        using 2(4) [OF nolead False] nolead
          parse_json_escape [of c "quote_chars cs @ dquote # rest"]
        by simp
    qed
  qed
qed

lemma well_formed_append: "well_formed xs \<Longrightarrow> well_formed (xs @ ys) = well_formed ys"
proof (induction xs rule: well_formed.induct)
  case 1
  show ?case by simp
next
  case (2 c cs)
  show ?case
  proof (cases "is_lead c")
    case True
    with 2(3) obtain d ds where cs: "cs = d # ds" and d: "is_trail d" and w: "well_formed ds"
      by (cases cs) auto
    show ?thesis using 2(1) [OF True cs] True d w by (simp add: cs)
  next
    case False
    with 2(3) have "\<not> is_trail c" "well_formed cs" by simp_all
    then show ?thesis using 2(2) [OF False] False by simp
  qed
qed

lemma hex_lower_ascii: "n < 16 \<Longrightarrow> unat (hex_lower n) < 0x80"
  by (simp add: hex_lower_def unat_unit_of)

lemma ascii_not_surrogate: "unat c < 0x80 \<Longrightarrow> \<not> is_lead c \<and> \<not> is_trail c"
  by (simp add: surrogate_unat)

lemma ascii_well_formed: "list_all (\<lambda>c. unat c < 0x80) xs \<Longrightarrow> well_formed xs"
proof (induction xs)
  case Nil
  show ?case by simp
next
  case (Cons c xs)
  then show ?case using ascii_not_surrogate [of c] by simp
qed

lemma well_formed_unicode_escape: "well_formed (unicode_escape c)"
proof -
  have "unat c div 0x1000 < 16" using unat_lt16 [of c] by simp
  then show ?thesis
    by (intro ascii_well_formed) (simp add: unicode_escape_def backslash_def hex_lower_ascii)
qed

lemma well_formed_json_escape:
  assumes "\<not> is_lead c" "\<not> is_trail c"
  shows "well_formed (json_escape c)"
proof -
  have e: "well_formed [backslash, x]" if "unat x < 0x80" for x
    by (rule ascii_well_formed) (use that in \<open>simp add: backslash_def\<close>)
  have s: "well_formed [c]" using assms by simp
  have "well_formed [backslash, 0x62]" "well_formed [backslash, 0x74]" "well_formed [backslash, 0x6E]"
    "well_formed [backslash, 0x66]" "well_formed [backslash, 0x72]" "well_formed [backslash, dquote]"
    "well_formed [backslash, backslash]"
    by (rule e, simp add: dquote_def backslash_def)+
  then show ?thesis
    using s well_formed_unicode_escape [of c]
    by (simp add: json_escape_def del: well_formed.simps)
qed

lemma well_formed_quote_chars: "well_formed (quote_chars s)"
proof (induction s rule: quote_chars.induct)
  case 1
  show ?case by simp
next
  case (2 c cs)
  show ?case
  proof (cases "is_lead c")
    case lead: True
    show ?thesis
    proof (cases cs)
      case Nil
      then show ?thesis using lead well_formed_unicode_escape [of c] by simp
    next
      case (Cons d ds)
      show ?thesis
      proof (cases "is_trail d")
        case True
        then show ?thesis using 2(1) [OF lead Cons True] lead Cons by simp
      next
        case False
        then show ?thesis
          using 2(2) [OF lead Cons False] lead Cons well_formed_unicode_escape [of c]
          by (simp add: well_formed_append)
      qed
    qed
  next
    case nolead: False
    show ?thesis
    proof (cases "is_trail c")
      case True
      then show ?thesis
        using 2(3) [OF nolead True] nolead well_formed_unicode_escape [of c]
        by (simp add: well_formed_append)
    next
      case False
      then show ?thesis
        using 2(4) [OF nolead False] nolead well_formed_json_escape [OF nolead False]
        by (simp add: well_formed_append)
    qed
  qed
qed

lemma well_formed_quote_json: "well_formed (quote_json s)"
proof -
  have d: "\<not> is_lead dquote" "\<not> is_trail dquote"
    using ascii_not_surrogate [of dquote] by (simp_all add: dquote_def)
  have "well_formed (quote_chars s @ [dquote])"
    using d by (simp add: well_formed_append [OF well_formed_quote_chars])
  then show ?thesis using d by (simp add: quote_json_def)
qed

section \<open>JSON: arrays and objects\<close>

lemma parsesD:
  assumes "parses v t" "length t \<le> m"
  shows "parse_value m (t @ rest) = Some (v, rest)" and "skip_ws (t @ rest) = t @ rest"
    and "\<exists>d ds. t @ rest = d # ds \<and> d \<noteq> 0x5D"
proof -
  from assms(1) obtain d ds where t: "t = d # ds" "\<not> json_whitespace d" "d \<noteq> 0x5D"
    by (cases t) (auto simp: parses_def)
  show "parse_value m (t @ rest) = Some (v, rest)" using assms by (simp add: parses_def)
  show "skip_ws (t @ rest) = t @ rest" using t by (simp add: skip_ws_def)
  show "\<exists>d ds. t @ rest = d # ds \<and> d \<noteq> 0x5D" using t by simp
qed

lemma skip_ws_punct [simp]:
  "skip_ws (0x2C # r) = 0x2C # r" "skip_ws (0x5D # r) = 0x5D # r" "skip_ws (0x7D # r) = 0x7D # r"
  "skip_ws (0x3A # r) = 0x3A # r" "skip_ws (dquote # r) = dquote # r"
  "skip_ws (0x22 # r) = 0x22 # r"
  by (simp_all add: skip_ws_def json_whitespace_def dquote_def)

lemma parses_string: "parses (JStr s) (quote_json s)"
proof -
  have "parse_value m (quote_json s @ rest) = Some (JStr s, rest)"
    if "length (quote_json s) \<le> m" for m rest
  proof -
    from that obtain k where m: "m = Suc k" by (cases m) (auto simp: quote_json_def)
    show ?thesis by (simp add: m quote_json_def parse_quote_chars)
  qed
  then show ?thesis
    by (simp add: parses_def quote_json_def json_whitespace_def dquote_def)
qed

lemma join_Cons_append: "\<exists>R'. join sep (t # ts) @ R = t @ R'"
  by (cases ts) simp_all

lemma parses_join_front:
  assumes "parses v t"
  shows "skip_ws (join sep (t # ts) @ R) = join sep (t # ts) @ R"
    and "\<exists>d ds. join sep (t # ts) @ R = d # ds \<and> d \<noteq> 0x5D"
proof -
  obtain R' where R': "join sep (t # ts) @ R = t @ R'" using join_Cons_append by blast
  show "skip_ws (join sep (t # ts) @ R) = join sep (t # ts) @ R"
    unfolding R' using assms by (rule parsesD(2) [OF _ order_refl])
  show "\<exists>d ds. join sep (t # ts) @ R = d # ds \<and> d \<noteq> 0x5D"
    unfolding R' using assms by (rule parsesD(3) [OF _ order_refl])
qed

lemma length_join_Cons: "length t \<le> length (join sep (t # ts))"
  by (cases ts) simp_all

lemma parse_elements_join:
  assumes "list_all2 parses vs ts" and "vs \<noteq> []" and "Suc (length (join (js '','') ts)) \<le> m"
  shows "parse_elements m (join (js '','') ts @ js '']'' @ rest) = Some (vs, rest)"
  using assms
proof (induction vs ts arbitrary: m rule: list_all2_induct)
  case Nil
  then show ?case by simp
next
  case (Cons v vs t ts)
  from Cons.prems obtain k where m: "m = Suc k" and k: "length (join (js '','') (t # ts)) \<le> k"
    by (cases m) auto
  have kt: "length t \<le> k" using k length_join_Cons [of t "js '',''" ts] by linarith
  show ?case
  proof (cases vs)
    case Nil
    with Cons.hyps have ts: "ts = []" by simp
    have "parse_value k (t @ js '']'' @ rest) = Some (v, js '']'' @ rest)"
      using parsesD(1) [OF Cons.hyps(1) kt] by simp
    then show ?thesis by (simp add: m Nil ts js_def)
  next
    case (Cons v' vs')
    with Cons.hyps(2) obtain t' ts' where ts: "ts = t' # ts'" and p': "parses v' t'"
      by (cases ts) auto
    define R where "R = join (js '','') ts @ js '']'' @ rest"
    have a: "parse_value k (t @ js '','' @ R) = Some (v, js '','' @ R)"
      using parsesD(1) [OF Cons.hyps(1) kt] by simp
    have b: "skip_ws R = R"
      unfolding R_def ts by (rule parses_join_front(1) [OF p'])
    have "Suc (length (join (js '','') ts)) \<le> k" using k by (simp add: ts js_def)
    then have c: "parse_elements k R = Some (vs, rest)"
      using Cons.IH [of k] Cons by (simp add: R_def)
    have j: "join (js '','') (t # ts) @ js '']'' @ rest = t @ js '','' @ R"
      by (simp add: ts R_def)
    show ?thesis
      unfolding j using a b c by (simp add: m js_def)
  qed
qed

lemma parses_array:
  assumes "list_all2 parses vs ts"
  shows "parses (JArr vs) (js ''['' @ join (js '','') ts @ js '']'')"
proof -
  have "parse_value m (js ''['' @ join (js '','') ts @ js '']'' @ rest) = Some (JArr vs, rest)"
    if "length (js ''['' @ join (js '','') ts @ js '']'') \<le> m" for m rest
  proof -
    from that obtain k where m: "m = Suc k" and k: "Suc (length (join (js '','') ts)) \<le> k"
      by (cases m) (auto simp: js_def)
    show ?thesis
    proof (cases vs)
      case Nil
      with assms have "ts = []" by simp
      then show ?thesis by (simp add: m Nil js_def dquote_def)
    next
      case (Cons v vs')
      with assms obtain t ts' where ts: "ts = t # ts'" and p: "parses v t"
        by (cases ts) auto
      define R where "R = join (js '','') ts @ js '']'' @ rest"
      have s: "skip_ws R = R" and d: "\<exists>d ds. R = d # ds \<and> d \<noteq> 0x5D"
        unfolding R_def ts by (rule parses_join_front [OF p])+
      from d obtain d ds where R: "R = d # ds" "d \<noteq> 0x5D" by auto
      have "parse_elements k R = Some (vs, rest)"
        using parse_elements_join [OF assms _ k] Cons by (simp add: R_def)
      moreover have "js ''['' @ join (js '','') ts @ js '']'' @ rest = 0x5B # R"
        by (simp add: R_def js_def)
      ultimately show ?thesis
        using s R by (simp add: m dquote_def)
    qed
  qed
  then show ?thesis
    by (simp add: parses_def js_def json_whitespace_def)
qed

lemma set_property_new: "k \<notin> fst ` set obj \<Longrightarrow> set_property k v obj = obj @ [(k, v)]"
  by (induction obj) auto

lemma foldl_set_property:
  "distinct (map fst (obj @ ms))
     \<Longrightarrow> foldl (\<lambda>obj (k, v). set_property k v obj) obj ms = obj @ ms"
proof (induction ms arbitrary: obj)
  case Nil
  show ?case by simp
next
  case (Cons p ms)
  obtain k v where p: "p = (k, v)" by (cases p)
  have n: "k \<notin> fst ` set obj" using Cons.prems by (auto simp: p)
  have d: "distinct (map fst ((obj @ [(k, v)]) @ ms))" using Cons.prems by (simp add: p)
  show ?case
    using Cons.IH [OF d] by (simp add: p set_property_new [OF n])
qed

lemma make_object_distinct: "distinct (map fst ms) \<Longrightarrow> make_object ms = JObj ms"
  using foldl_set_property [of "[]" ms] by (simp add: make_object_def)

lemma parse_member_front:
  assumes "parses v t" "length t \<le> k"
  shows "parse_string_chars (quote_chars key @ dquote # js '':'' @ t @ R) = Some (key, js '':'' @ t @ R)"
    and "parse_value k (skip_ws (t @ R)) = Some (v, R)"
  using parse_quote_chars [where s = key and rest = "js '':'' @ t @ R"]
    parsesD(1) [OF assms, where rest = R] parsesD(2) [OF assms, where rest = R]
  by simp_all

lemma length_member_text: "length t \<le> length (member_text key t)"
  by (simp add: member_text_def)

lemma parse_members_join:
  assumes "list_all2 (\<lambda>kv t. parses (snd kv) t) ms ts" and "ms \<noteq> []"
    and "Suc (length (join (js '','') (map2 (\<lambda>kv t. member_text (fst kv) t) ms ts))) \<le> m"
  shows "parse_members m
           (join (js '','') (map2 (\<lambda>kv t. member_text (fst kv) t) ms ts) @ js ''}'' @ rest)
         = Some (ms, rest)"
  using assms
proof (induction ms ts arbitrary: m rule: list_all2_induct)
  case Nil
  then show ?case by simp
next
  case (Cons kv ms t ts)
  obtain key v where kv: "kv = (key, v)" by (cases kv)
  define M where "M = map2 (\<lambda>kv t. member_text (fst kv) t) ms ts"
  have M0: "map2 (\<lambda>kv t. member_text (fst kv) t) (kv # ms) (t # ts) = member_text key t # M"
    by (simp add: M_def kv)
  from Cons.prems obtain k where m: "m = Suc k"
    and k: "length (join (js '','') (member_text key t # M)) \<le> k"
    unfolding M0 by (cases m) auto
  have kt: "length t \<le> k"
    using k length_join_Cons [of "member_text key t" "js '',''" M] length_member_text [of t key]
    by linarith
  have p: "parses v t" using Cons.hyps(1) by (simp add: kv)
  show ?case
  proof (cases ms)
    case Nil
    with Cons.hyps have ts: "ts = []" by simp
    show ?thesis
      using parse_member_front(1) [OF p kt, where key = key and R = "js ''}'' @ rest"]
        parse_member_front(2) [OF p kt, where R = "js ''}'' @ rest"]
      by (simp add: m Nil ts kv member_text_def quote_json_def js_def)
  next
    case (Cons kv' ms')
    with Cons.hyps(2) obtain t' ts' where ts: "ts = t' # ts'"
      by (cases ts) auto
    define R where "R = join (js '','') M @ js ''}'' @ rest"
    have M: "M = member_text (fst kv') t' # map2 (\<lambda>kv t. member_text (fst kv) t) ms' ts'"
      by (simp add: M_def Cons ts)
    obtain R' where R': "R = dquote # R'"
      using join_Cons_append [of "js '',''" "member_text (fst kv') t'" _ "js ''}'' @ rest"]
      unfolding R_def M by (auto simp: member_text_def quote_json_def)
    have "Suc (length (join (js '','') M)) \<le> k" using k by (simp add: M js_def)
    then have c: "parse_members k R = Some (ms, rest)"
      using Cons.IH [of k] Cons by (simp add: R_def M_def)
    have j: "join (js '','') (map2 (\<lambda>kv t. member_text (fst kv) t) (kv # ms) (t # ts)) @ js ''}'' @ rest
               = member_text key t @ js '','' @ R"
      unfolding M0 R_def by (simp add: M)
    have s: "skip_ws R = R" unfolding R' by simp
    show ?thesis
      unfolding j
      using parse_member_front(1) [OF p kt, where key = key and R = "js '','' @ R"]
        parse_member_front(2) [OF p kt, where R = "js '','' @ R"] c s
      by (simp add: m kv member_text_def quote_json_def js_def)
  qed
qed

lemma parses_object:
  assumes "list_all2 (\<lambda>kv t. parses (snd kv) t) ms ts" and "distinct (map fst ms)"
  shows "parses (JObj ms)
           (js ''{'' @ join (js '','') (map2 (\<lambda>kv t. member_text (fst kv) t) ms ts) @ js ''}'')"
proof -
  let ?M = "map2 (\<lambda>kv t. member_text (fst kv) t) ms ts"
  have "parse_value m (js ''{'' @ join (js '','') ?M @ js ''}'' @ rest) = Some (JObj ms, rest)"
    if "length (js ''{'' @ join (js '','') ?M @ js ''}'') \<le> m" for m rest
  proof -
    from that obtain k where m: "m = Suc k" and k: "Suc (length (join (js '','') ?M)) \<le> k"
      by (cases m) (auto simp: js_def)
    show ?thesis
    proof (cases ms)
      case Nil
      with assms have "ts = []" by simp
      then show ?thesis by (simp add: m Nil js_def dquote_def)
    next
      case (Cons kv ms')
      with assms(1) obtain t ts' where ts: "ts = t # ts'" by (cases ts) auto
      define R where "R = join (js '','') ?M @ js ''}'' @ rest"
      have M: "?M = member_text (fst kv) t # map2 (\<lambda>kv t. member_text (fst kv) t) ms' ts'"
        by (simp add: Cons ts)
      obtain R' where R': "R = dquote # R'"
        using join_Cons_append [of "js '',''" "member_text (fst kv) t" _ "js ''}'' @ rest"]
        unfolding R_def M by (auto simp: member_text_def quote_json_def)
      have "parse_members k R = Some (ms, rest)"
        using parse_members_join [OF assms(1) _ k] Cons by (simp add: R_def)
      moreover have "js ''{'' @ join (js '','') ?M @ js ''}'' @ rest = 0x7B # R"
        by (simp add: R_def js_def)
      ultimately show ?thesis
        using R' make_object_distinct [OF assms(2)]
        by (simp add: m dquote_def)
    qed
  qed
  then show ?thesis
    by (simp add: parses_def js_def json_whitespace_def)
qed

section \<open>JSON: \<open>JSON.parse\<close> undoes \<open>JSON.stringify\<close>\<close>

lemma well_formed_js:
  "well_formed (js '','')" "well_formed (js ''['')" "well_formed (js '']'')" "well_formed (js ''{'')"
  "well_formed (js ''}'')" "well_formed (js '':'')" "well_formed (js ''null'')"
  "well_formed (js ''true'')" "well_formed (js ''false'')"
  by (rule ascii_well_formed, simp add: js_def)+

lemma well_formed_join:
  "well_formed sep \<Longrightarrow> list_all well_formed ts \<Longrightarrow> well_formed (join sep ts)"
proof (induction sep ts rule: join.induct)
  case (1 sep)
  show ?case by simp
next
  case (2 sep x)
  then show ?case by (simp del: well_formed.simps)
next
  case (3 sep x y ys)
  then have "well_formed x" "well_formed sep" "well_formed (join sep (y # ys))"
    by (simp_all del: well_formed.simps join.simps)
  then show ?case by (simp add: well_formed_append del: well_formed.simps)
qed

lemma round_trips_keywords: "round_trips JNull" "round_trips (JBool b)"
proof -
  have k: "parse_value m (w @ rest) = Some (v, rest)"
    if "length w \<le> m" "w = js ''null'' \<and> v = JNull \<or> w = js ''true'' \<and> v = JBool True
         \<or> w = js ''false'' \<and> v = JBool False" for m w rest v
  proof -
    from that obtain k where m: "m = Suc k" by (cases m) (auto simp: js_def)
    show ?thesis using that(2) by (auto simp: m js_def keyword_def dquote_def)
  qed
  show "round_trips JNull"
    using k [of "js ''null''" _ JNull] well_formed_js
    by (simp add: round_trips_def text_of_def parses_def del: well_formed.simps)
      (simp add: js_def json_whitespace_def)
  show "round_trips (JBool b)"
    using k [of "js ''true''" _ "JBool True"] k [of "js ''false''" _ "JBool False"] well_formed_js
    by (cases b; simp add: round_trips_def text_of_def parses_def del: well_formed.simps)
      (simp_all add: js_def json_whitespace_def)
qed

lemma round_trips_string: "round_trips (JStr s)"
  using parses_string [of s] well_formed_quote_json [of s]
  by (simp add: round_trips_def text_of_def)

lemma serialize_array:
  assumes "list_all round_trips vs"
  shows "serialize (JArr vs) = Some (js ''['' @ join (js '','') (map text_of vs) @ js '']'')"
proof -
  have h: "map (\<lambda>v. case serialize v of None \<Rightarrow> js ''null'' | Some t \<Rightarrow> t) vs = map text_of vs"
    using assms by (induction vs) (simp_all add: round_trips_def)
  show ?thesis by (simp only: serialize.simps h)
qed

lemma round_trips_array:
  assumes "list_all round_trips vs"
  shows "round_trips (JArr vs)"
proof -
  have p: "list_all2 parses vs (map text_of vs)"
    using assms by (induction vs) (simp_all add: round_trips_def)
  have w: "list_all well_formed (map text_of vs)"
    using assms by (induction vs) (simp_all add: round_trips_def del: well_formed.simps)
  have t: "text_of (JArr vs) = js ''['' @ join (js '','') (map text_of vs) @ js '']''"
    using serialize_array [OF assms] by (simp add: text_of_def)
  have "well_formed (js ''['' @ join (js '','') (map text_of vs) @ js '']'')"
    using well_formed_js well_formed_join [OF well_formed_js(1) w]
    by (simp add: well_formed_append del: well_formed.simps)
  then show ?thesis
    using parses_array [OF p] serialize_array [OF assms]
    unfolding round_trips_def t by simp
qed

lemma serialize_object:
  assumes "list_all (\<lambda>kv. round_trips (snd kv)) ms"
  shows "serialize (JObj ms)
         = Some (js ''{'' @ join (js '','')
                   (map2 (\<lambda>kv t. member_text (fst kv) t) ms (map (\<lambda>kv. text_of (snd kv)) ms))
                 @ js ''}'')"
proof -
  have h: "concat (map (\<lambda>(k, v). case serialize v of None \<Rightarrow> []
                               | Some t \<Rightarrow> [quote_json k @ js '':'' @ t]) ms)
        = map2 (\<lambda>kv t. member_text (fst kv) t) ms (map (\<lambda>kv. text_of (snd kv)) ms)"
    using assms
    by (induction ms) (auto simp: round_trips_def member_text_def)
  show ?thesis by (simp only: serialize.simps h)
qed

lemma round_trips_object:
  assumes "list_all (\<lambda>kv. round_trips (snd kv)) ms" and "distinct (map fst ms)"
  shows "round_trips (JObj ms)"
proof -
  let ?ts = "map (\<lambda>kv. text_of (snd kv)) ms"
  let ?M = "map2 (\<lambda>kv t. member_text (fst kv) t) ms ?ts"
  have p: "list_all2 (\<lambda>kv t. parses (snd kv) t) ms ?ts"
    using assms(1) by (induction ms) (simp_all add: round_trips_def)
  have w: "list_all well_formed ?M"
    using assms(1) well_formed_js(6) well_formed_quote_json
    by (induction ms)
      (simp_all add: round_trips_def member_text_def well_formed_append del: well_formed.simps)
  have t: "text_of (JObj ms) = js ''{'' @ join (js '','') ?M @ js ''}''"
    using serialize_object [OF assms(1)] by (simp add: text_of_def)
  have "well_formed (js ''{'' @ join (js '','') ?M @ js ''}'')"
    using well_formed_js well_formed_join [OF well_formed_js(1) w]
    by (simp add: well_formed_append del: well_formed.simps)
  then show ?thesis
    using parses_object [OF p assms(2)] serialize_object [OF assms(1)]
    unfolding round_trips_def t by simp
qed

lemma jsonable_round_trips: "jsonable v \<Longrightarrow> round_trips v"
proof (induction v)
  case (JArr vs)
  then have "list_all round_trips vs" by (simp add: list_all_iff)
  then show ?case by (rule round_trips_array)
next
  case (JObj ms)
  then have "list_all (\<lambda>kv. round_trips (snd kv)) ms"
    by (auto simp: list_all_iff snds.simps)
  then show ?case using JObj.prems by (intro round_trips_object) simp_all
qed (simp_all add: round_trips_keywords round_trips_string)

text \<open>What \<open>JSON.stringify\<close> writes for such a value, \<open>JSON.parse\<close> reads back.\<close>

lemma JSON_parse_stringify:
  assumes "jsonable v"
  shows "JSON_stringify v = Some (text_of v)" and "JSON_parse (text_of v) = Inr v"
    and "well_formed (text_of v)" and "text_of v \<noteq> []"
proof -
  have r: "round_trips v" using assms by (rule jsonable_round_trips)
  then have p: "parses v (text_of v)" by (simp add: round_trips_def)
  show "JSON_stringify v = Some (text_of v)" using r by (simp add: round_trips_def JSON_stringify_def)
  show "well_formed (text_of v)" using r by (simp add: round_trips_def)
  show "text_of v \<noteq> []" using p by (simp add: parses_def)
  have "parse_value (Suc (length (text_of v))) (text_of v @ []) = Some (v, [])"
    using p by (intro parsesD(1)) simp_all
  moreover have "skip_ws (text_of v @ []) = text_of v @ []"
    using p by (intro parsesD(2) [OF _ order_refl])
  ultimately show "JSON_parse (text_of v) = Inr v"
    by (simp add: JSON_parse_def skip_ws_def)
qed

section \<open>The folio codec: round trip\<close>

lemma serialize_folioData: "serialize (folioData d) = serialize (stored_profile d)"
  by (simp add: folioData_def stored_profile_def present_def optional_string_def
        split: option.splits)

lemma jsonable_link_value: "jsonable (link_value l)"
  by (simp add: link_value_def js_def)

lemma jsonable_stored_profile: "jsonable (stored_profile d)"
proof -
  have "list_all jsonable (map link_value ls)" for ls
    by (induction ls) (simp_all add: jsonable_link_value)
  then show ?thesis
    by (simp add: stored_profile_def present_def js_def split: option.splits)
qed

lemma stored_profile_keys: "object_keys_length (stored_profile d) = Inr n \<Longrightarrow> 0 < n"
  by (auto simp: object_keys_length_def stored_profile_def present_def js_def
        split: option.splits if_splits)

lemma folio_decode_encode:
  "\<exists>token. folio_encode d = Inr token \<and> folio_decode token = Some (stored_profile d)"
proof -
  let ?t = "text_of (stored_profile d)"
  note j = JSON_parse_stringify [OF jsonable_stored_profile [of d]]
  have s: "JSON_stringify (folioData d) = Some ?t"
    using j(1) by (simp add: JSON_stringify_def serialize_folioData)
  obtain token where t: "utf8ToBase64 ?t = Inr token" "base64ToUtf8 token = ?t" "token \<noteq> []"
    using base64_round_trip [OF j(3)] j(4) by auto
  obtain n where n: "object_keys_length (stored_profile d) = Inr n"
    by (auto simp: object_keys_length_def stored_profile_def)
  have "folio_decode token = Some (stored_profile d)"
    using t j(2) n stored_profile_keys [OF n] by (simp add: folio_decode_def)
  then show ?thesis using s t(1) by (simp add: folio_encode_def)
qed

lemma stored_profile_properties:
  "get_property (stored_profile d) (js ''profileImageUrl'') = map_option JStr (text_field d ''profileImageUrl'')"
  "get_property (stored_profile d) (js ''name'') = map_option JStr (text_field d ''name'')"
  "get_property (stored_profile d) (js ''title'') = map_option JStr (text_field d ''title'')"
  "get_property (stored_profile d) (js ''links'') = Some (JArr (map link_value (validLinks d)))"
  by (simp_all add: get_property_def stored_profile_def present_def js_def split: option.splits)

lemma serialize_links:
  "map (\<lambda>v. case serialize v of None \<Rightarrow> js ''null'' | Some t \<Rightarrow> t) (map link_value ls)
     = map compact_link ls"
  by (induction ls) (simp_all add: link_value_def compact_link_def js_def)

lemma stringify_folioData: "JSON_stringify (folioData d) = Some (compact_profile_json d)"
proof -
  have "serialize (JArr (map link_value (validLinks d)))
          = Some (js ''['' @ join (js '','') (map compact_link (validLinks d)) @ js '']'')"
    by (simp only: serialize.simps serialize_links)
  then show ?thesis
    by (simp add: JSON_stringify_def folioData_def compact_profile_json_def compact_member_def
        optional_string_def validLinks_def js_def split: option.splits)
qed

text \<open>The encoder evaluated on that profile.\<close>

lemma jose_encode: "folio_encode jose = Inr jose_token"
  by (simp add: folio_encode_def jose_def jose_token_def JSON_stringify_def folioData_def
      optional_string_def validLinks_def valid_link_def link_value_def quote_json_def
      json_escape_def is_lead_def is_trail_def dquote_def backslash_def js_def
      utf8ToBase64_def uri_unescaped_def is_alpha_def is_digit_def prepend_def
      utf8_octets_def pair_code_point_def percent_octet_def hex_upper_def pct_def unit_of_def
      hex_digits_def hex_value_def btoa_def base64_char_def equals_sign_def)

text \<open>
  C1. For every profile, with any code units in its texts, the encoder gives a token, and
  decoding that token gives an object whose \<open>name\<close> is the profile's name (absent when
  that is absent) and whose \<open>links\<close> are the profile's links that have both a non-empty
  title and a non-empty url, in their order.
\<close>

theorem folio_round_trip_name_links:
  "\<exists>token p. folio_encode d = Inr token \<and> folio_decode token = Some p
     \<and> get_property p (js ''name'') = map_option JStr (text_field d ''name'')
     \<and> get_property p (js ''links'')
         = Some (JArr (map link_value
                        (filter valid_link (case links d of None \<Rightarrow> [] | Some ls \<Rightarrow> ls))))"
  using folio_decode_encode [of d] stored_profile_properties(2,4) [of d]
  by (auto simp: validLinks_def)

theorem folio_round_trip_name_links_witness:
  "\<exists>p. folio_encode jose = Inr jose_token \<and> folio_decode jose_token = Some p
     \<and> get_property p (js ''name'') = Some (JStr [0x4A, 0x6F, 0x73, 0xE9, 0x20, 0xD83C, 0xDF89])
     \<and> get_property p (js ''links'')
         = Some (JArr [link_value \<lparr>link_title = js ''Website'', link_url = js ''https://''\<rparr>])"
proof -
  have "map_option JStr (text_field jose ''name'')
          = Some (JStr [0x4A, 0x6F, 0x73, 0xE9, 0x20, 0xD83C, 0xDF89])"
    and "filter valid_link (case links jose of None \<Rightarrow> [] | Some ls \<Rightarrow> ls)
          = [\<lparr>link_title = js ''Website'', link_url = js ''https://''\<rparr>]"
    by (simp_all add: jose_def valid_link_def js_def)
  then show ?thesis
    using folio_round_trip_name_links [of jose] jose_encode by auto
qed

text \<open>
  C3. \<open>JSON.stringify\<close> of the encoder's object is the compact text of the profile: no
  member for an absent optional field, the filtered links, nothing between the tokens.
  And each of the three optional fields comes back from the token as it went in: absent
  when it was absent, the same string otherwise.
\<close>

theorem folio_encode_compact:
  "JSON_stringify (folioData d) = Some (compact_profile_json d)
   \<and> (\<exists>token p. folio_encode d = Inr token \<and> folio_decode token = Some p
        \<and> get_property p (js ''profileImageUrl'') = map_option JStr (text_field d ''profileImageUrl'')
        \<and> get_property p (js ''name'') = map_option JStr (text_field d ''name'')
        \<and> get_property p (js ''title'') = map_option JStr (text_field d ''title''))"
  using folio_decode_encode [of d] stored_profile_properties(1,2,3) [of d] stringify_folioData [of d]
  by auto

theorem folio_encode_compact_witness:
  "JSON_stringify (folioData jose)
     = Some (js ''{'' @ quote_json (js ''name'') @ js '':''
               @ quote_json [0x4A, 0x6F, 0x73, 0xE9, 0x20, 0xD83C, 0xDF89] @ js '',''
               @ quote_json (js ''title'') @ js '':'' @ quote_json [] @ js '',''
               @ quote_json (js ''links'') @ js '':[''
               @ compact_link \<lparr>link_title = js ''Website'', link_url = js ''https://''\<rparr>
               @ js '']}'')
   \<and> (\<exists>token p. folio_encode jose = Inr token \<and> folio_decode token = Some p
        \<and> get_property p (js ''profileImageUrl'') = None
        \<and> get_property p (js ''name'') = Some (JStr [0x4A, 0x6F, 0x73, 0xE9, 0x20, 0xD83C, 0xDF89])
        \<and> get_property p (js ''title'') = Some (JStr []))"
  using folio_encode_compact [of jose]
  by (simp add: jose_def compact_profile_json_def compact_member_def valid_link_def js_def)

section \<open>The folio codec: tokens that are no profile\<close>

lemma empty_object_text: "JSON_parse (js ''{}'') = Inr (JObj [])"
  by (simp add: JSON_parse_def js_def skip_ws_def json_whitespace_def dquote_def)

text \<open>
  The empty token, a token that is no base64 or no UTF-8, a text that is no JSON, and the
  texts \<open>{}\<close> and \<open>null\<close> all decode to \<open>null\<close>.
\<close>

lemma folio_decode_malformed:
  "folio_decode [] = None"
  "atob t = Inl e \<Longrightarrow> folio_decode t = None"
  "atob t = Inr b \<Longrightarrow> decodeURIComponent (escape b) = Inl e \<Longrightarrow> folio_decode t = None"
  "JSON_parse (base64ToUtf8 t) = Inl e \<Longrightarrow> folio_decode t = None"
  "JSON_parse (base64ToUtf8 t) = Inr (JObj []) \<Longrightarrow> folio_decode t = None"
  "JSON_parse (base64ToUtf8 t) = Inr JNull \<Longrightarrow> folio_decode t = None"
  by (auto simp: folio_decode_def base64ToUtf8_def empty_object_text object_keys_length_def)

lemma foo_decode: "folio_decode foo_token = Some (JObj [(js ''foo'', JNum (js ''1''))])"
  by (simp add: foo_token_def folio_decode_def base64ToUtf8_def atob_def ascii_whitespace_def
      strip_padding_def
      base64_index_def equals_sign_def unit_of_def escape_def escape_unit_def escape_unescaped_def
      is_alpha_def is_digit_def percent_octet_def hex_upper_def pct_def js_def
      hex_digits_def hex_value_def leading_ones_def prepend_def
      JSON_parse_def skip_ws_def json_whitespace_def dquote_def backslash_def
      parse_number_def number_sign_def number_int_def number_frac_def number_exp_def
      make_object_def object_keys_length_def)

text \<open>
  A token can also decode to a value the card cannot be built from: with the text \<open>x\<close>
  under \<open>links\<close> the page throws at \<open>links.filter\<close> and shows nothing.
\<close>

lemma links_text_decode:
  "folio_decode links_text_token = Some (JObj [(js ''links'', JStr (js ''x''))])"
  by (simp add: links_text_token_def folio_decode_def base64ToUtf8_def atob_def ascii_whitespace_def
      strip_padding_def
      base64_index_def equals_sign_def unit_of_def escape_def escape_unit_def escape_unescaped_def
      is_alpha_def is_digit_def percent_octet_def hex_upper_def pct_def js_def
      hex_digits_def hex_value_def leading_ones_def prepend_def
      JSON_parse_def skip_ws_def json_whitespace_def dquote_def backslash_def
      make_object_def object_keys_length_def)

lemma links_text_render_error: "folio_page links_text_token = RenderError"
  using links_text_decode
  by (simp add: folio_page_def card_throws_def property_true_def
      child_throws_def attribute_throws_def links_throw_def object_keys_length_def
      get_property_def js_def)

text \<open>
  C2, where the code departs from it. The token of the text \<open>{"foo":1}\<close> is not empty and
  its object has none of the keys \<open>profileImageUrl\<close>, \<open>name\<close>, \<open>title\<close>, \<open>links\<close>; the
  decoder returns the object all the same, and the page shows it as a profile.
\<close>

theorem decode_accepts_unrecognized_keys:
  "folio_decode foo_token = Some (JObj [(js ''foo'', JNum (js ''1''))])
   \<and> shows_profile foo_token
   \<and> list_all (\<lambda>k. get_property (JObj [(js ''foo'', JNum (js ''1''))]) (js k) = None)
         [''profileImageUrl'', ''name'', ''title'', ''links'']"
  using foo_decode
  by (simp add: shows_profile_def folio_page_def card_throws_def property_true_def
      child_throws_def attribute_throws_def links_throw_def object_keys_length_def
      get_property_def js_def)

end
